theory Spec2Isabelle
  imports Main "HOL-Library.Monad_Syntax" "HOL-Library.Sublist" "HOL-Library.Multiset"
begin

section \<open>Data model of pth\_tsp\_search\_nr (part 2, with work donation)\<close>

text \<open>
  The program keeps cities and weights in C \<open>int\<close>s of 32 bits. Cities are modelled as
  \<open>int\<close> (the filler \<open>NO_CITY\<close> is \<open>-1\<close>). Weights are modelled as \<open>int\<close> too, and
  every addition of two costs the code makes wraps around modulo \<open>2 ^ 32\<close>, as the
  compiled program's does (\<open>add_int\<close>). The counters \<open>n\<close>, \<open>count\<close>, \<open>my_count\<close>,
  \<open>threads_in_cond_wait\<close>, which the code only ever increments from zero and
  decrements after an increment, are modelled as \<open>nat\<close>.

  A heap array is a list whose length is the allocated capacity. Reading or writing
  outside the capacity, and following a NULL pointer, is the value \<open>None\<close>.
\<close>

definition INFINITY :: int where
  "INFINITY = 1000000"

definition NO_CITY :: int where
  "NO_CITY = - 1"

type_synonym city_t = int
type_synonym weight_t = int

text \<open>The value an \<open>int\<close> holds after a sum: the sum taken into \<open>-2 ^ 31, ..., 2 ^ 31 - 1\<close>.\<close>

definition wrap_int :: "int \<Rightarrow> int" where
  "wrap_int x = (x + 2147483648) mod 4294967296 - 2147483648"

definition add_int :: "int \<Rightarrow> int \<Rightarrow> int" where
  "add_int a b = wrap_int (a + b)"

record tour_t =
  cities :: "city_t list"
  count :: nat
  cost :: weight_t

record stack_elt_t =
  tour_p :: tour_t
  city :: city_t
  elt_cost :: weight_t

text \<open>A stack is the linked list of its nodes, head first; the NULL pointer is \<open>[]\<close>.\<close>

type_synonym stack_t = "stack_elt_t list"

definition rd :: "'a list \<Rightarrow> int \<Rightarrow> 'a option" where
  "rd a i = (if 0 \<le> i \<and> i < int (length a) then Some (a ! nat i) else None)"

definition wr :: "'a list \<Rightarrow> int \<Rightarrow> 'a \<Rightarrow> 'a list option" where
  "wr a i v = (if 0 \<le> i \<and> i < int (length a) then Some (a[nat i := v]) else None)"

subsection \<open>Tours\<close>

text \<open>
  \<open>malloc\<close> returns cells with indeterminate contents; the model fills them with
  \<open>0\<close>. Every cell of a fresh array is written before the program reads it.
\<close>

definition malloc_cities :: "nat \<Rightarrow> city_t list" where
  "malloc_cities k = replicate k 0"

text \<open>\<open>Initialize_tour\<close> allocates \<open>n + 1\<close> cells and writes \<open>NO_CITY\<close> to each of them.\<close>

function Initialize_loop :: "nat \<Rightarrow> city_t list \<Rightarrow> nat \<Rightarrow> city_t list option" where
  "Initialize_loop n cs i =
     (if i \<le> n then
        do { cs' \<leftarrow> wr cs (int i) NO_CITY; Initialize_loop n cs' (i + 1) }
      else Some cs)"
  by pat_completeness auto
termination
  by (relation "measure (\<lambda>(n, cs, i). Suc n - i)") auto

definition Initialize_tour :: "nat \<Rightarrow> tour_t option" where
  "Initialize_tour n =
     do { cs \<leftarrow> Initialize_loop n (malloc_cities (n + 1)) 0;
          Some \<lparr>cities = cs, count = 0, cost = 0\<rparr> }"

text \<open>
  The copying loop \<open>for (i = 0; i < k; i++) dst[i] = src[i]\<close> of \<open>Dup_tour\<close>
  (with \<open>k = n\<close>) and of \<open>Check_best_tour\<close> (with \<open>k = tour_p->count\<close>).
\<close>

function copy_loop :: "nat \<Rightarrow> city_t list \<Rightarrow> city_t list \<Rightarrow> nat \<Rightarrow> city_t list option" where
  "copy_loop k src dst i =
     (if i < k then
        do { v \<leftarrow> rd src (int i); dst' \<leftarrow> wr dst (int i) v; copy_loop k src dst' (i + 1) }
      else Some dst)"
  by pat_completeness auto
termination
  by (relation "measure (\<lambda>(k, src, dst, i). k - i)") auto

text \<open>\<open>Dup_tour\<close> allocates only \<open>n\<close> cells for the copy.\<close>

definition Dup_tour :: "nat \<Rightarrow> tour_t \<Rightarrow> tour_t option" where
  "Dup_tour n t =
     do { cs \<leftarrow> copy_loop n (cities t) (malloc_cities n) 0;
          Some \<lparr>cities = cs, count = count t, cost = cost t\<rparr> }"

function Visited_loop :: "city_t \<Rightarrow> tour_t \<Rightarrow> nat \<Rightarrow> bool option" where
  "Visited_loop nbr t i =
     (if i < count t then
        do { c \<leftarrow> rd (cities t) (int i);
             if c = nbr then Some True else Visited_loop nbr t (i + 1) }
      else Some False)"
  by pat_completeness auto
termination
  by (relation "measure (\<lambda>(nbr, t, i). count t - i)") auto

definition Visited :: "city_t \<Rightarrow> tour_t \<Rightarrow> bool option" where
  "Visited nbr t = Visited_loop nbr t 0"

text \<open>
  \<open>Feasible\<close>: the C \<open>&&\<close> reads the matrix only when \<open>nbr\<close> has not been visited.
  The matrix \<open>mat\<close> is the flat row-major array of \<open>n * n\<close> weights.
\<close>

definition Feasible :: "nat \<Rightarrow> weight_t list \<Rightarrow> city_t \<Rightarrow> city_t \<Rightarrow> tour_t \<Rightarrow> int \<Rightarrow> bool option" where
  "Feasible n mat cty nbr t l_best =
     do { v \<leftarrow> Visited nbr t;
          if \<not> v then
            do { c \<leftarrow> rd mat (int n * cty + nbr); Some (add_int (cost t) c < l_best) }
          else Some False }"

subsection \<open>The work stack\<close>

definition Push :: "nat \<Rightarrow> tour_t \<Rightarrow> city_t \<Rightarrow> weight_t \<Rightarrow> stack_t \<Rightarrow> stack_t option" where
  "Push n t cty c st =
     do { d \<leftarrow> Dup_tour n t;
          Some (\<lparr>tour_p = d, city = cty, elt_cost = c\<rparr> # st) }"

definition Pop :: "stack_t \<Rightarrow> (tour_t \<times> city_t \<times> weight_t \<times> stack_t) option" where
  "Pop st = (case st of [] \<Rightarrow> None | e # rest \<Rightarrow> Some (tour_p e, city e, elt_cost e, rest))"

definition Empty :: "stack_t \<Rightarrow> bool" where
  "Empty st = (st = [])"

subsection \<open>Split\_stack\<close>

text \<open>
  The loop of \<open>Split_stack\<close>: \<open>curr_p\<close> is the remnant list, \<open>my_p\<close> and \<open>new_p\<close>
  are the tails of the two lists under construction, so attaching a node at a tail is
  an append. One round moves one node to the caller's list and, when a node is left,
  one node to the new list.
\<close>

fun Split_loop ::
  "stack_elt_t list \<Rightarrow> stack_elt_t list \<Rightarrow> stack_elt_t list \<Rightarrow> nat \<Rightarrow> nat
    \<Rightarrow> stack_elt_t list \<times> stack_elt_t list \<times> nat \<times> nat" where
  "Split_loop [] my new my_size new_size = (my, new, my_size, new_size)"
| "Split_loop [c] my new my_size new_size = (my @ [c], new, my_size + 1, new_size)"
| "Split_loop (c # d # rest) my new my_size new_size =
     Split_loop rest (my @ [c]) (new @ [d]) (my_size + 1) (new_size + 1)"

text \<open>
  \<open>Split_stack\<close> returns the caller's list, the list stored in \<open>new_stack\<close>, and the
  values stored in \<open>*my_stack_size\<close> and \<open>new_stack_size\<close>. The code assumes two nodes:
  with fewer it follows a NULL pointer.
\<close>

definition Split_stack ::
  "stack_elt_t list \<Rightarrow> (stack_elt_t list \<times> stack_elt_t list \<times> nat \<times> nat) option" where
  "Split_stack my_stack =
     (case my_stack of
        a # b # rest \<Rightarrow> Some (Split_loop rest [a] [b] 1 1)
      | _ \<Rightarrow> None)"

subsection \<open>Check\_best\_tour\<close>

text \<open>
  The body of the write-locked section: the comparison is made again, and the tour is
  copied into \<open>best_tour\<close> when it still wins.
\<close>

definition Check_best_tour_wr ::
  "nat \<Rightarrow> weight_t list \<Rightarrow> city_t \<Rightarrow> tour_t \<Rightarrow> tour_t \<Rightarrow> tour_t option" where
  "Check_best_tour_wr n mat cty t best =
     do { c \<leftarrow> rd mat (cty * int n + 0);
          if add_int (cost t) c < cost best then
            do { cs \<leftarrow> copy_loop (count t) (cities t) (cities best) 0;
                 cs' \<leftarrow> wr cs (int n) 0;
                 Some (best\<lparr>cities := cs', count := n + 1, cost := add_int (cost t) c\<rparr>) }
          else Some best }"

text \<open>
  The read-locked section: \<open>*l_best_tour\<close> receives the champion's cost, and the
  result says whether the caller goes on to the write lock.
\<close>

definition Check_best_tour_rd ::
  "nat \<Rightarrow> weight_t list \<Rightarrow> city_t \<Rightarrow> tour_t \<Rightarrow> tour_t \<Rightarrow> (int \<times> bool) option" where
  "Check_best_tour_rd n mat cty t best =
     do { c \<leftarrow> rd mat (cty * int n + 0);
          Some (cost best, add_int (cost t) c < cost best) }"

text \<open>
  \<open>Check_best_tour\<close> run without another writer between its two sections: the new
  champion and the new value of \<open>*l_best_tour\<close>.
\<close>

definition Check_best_tour ::
  "nat \<Rightarrow> weight_t list \<Rightarrow> city_t \<Rightarrow> tour_t \<Rightarrow> tour_t \<Rightarrow> (tour_t \<times> int) option" where
  "Check_best_tour n mat cty t best =
     do { (l, upgrade) \<leftarrow> Check_best_tour_rd n mat cty t best;
          if upgrade then
            do { best' \<leftarrow> Check_best_tour_wr n mat cty t best; Some (best', l) }
          else Some (best, l) }"

subsection \<open>Search: the locals of a worker, its seeds and one round of its loop\<close>

record locals =
  stack_p :: stack_t
  my_count :: nat
  l_best_tour :: int

definition quotient :: "nat \<Rightarrow> nat \<Rightarrow> nat" where
  "quotient n thread_count = (n - 1) div thread_count"

definition remainder :: "nat \<Rightarrow> nat \<Rightarrow> nat" where
  "remainder n thread_count = (n - 1) mod thread_count"

definition partial_tour_count :: "nat \<Rightarrow> nat \<Rightarrow> nat \<Rightarrow> nat" where
  "partial_tour_count n thread_count my_rank =
     (if my_rank < remainder n thread_count then quotient n thread_count + 1
      else quotient n thread_count)"

definition first_final_city :: "nat \<Rightarrow> nat \<Rightarrow> nat \<Rightarrow> nat" where
  "first_final_city n thread_count my_rank =
     (if my_rank < remainder n thread_count
      then my_rank * partial_tour_count n thread_count my_rank + 1
      else my_rank * partial_tour_count n thread_count my_rank + remainder n thread_count + 1)"

definition last_final_city :: "nat \<Rightarrow> nat \<Rightarrow> nat \<Rightarrow> nat" where
  "last_final_city n thread_count my_rank =
     first_final_city n thread_count my_rank + partial_tour_count n thread_count my_rank - 1"

text \<open>One round of the seeding loop: the node for first move \<open>i\<close>.\<close>

definition seed_elt :: "nat \<Rightarrow> weight_t list \<Rightarrow> nat \<Rightarrow> stack_elt_t option" where
  "seed_elt n mat i =
     do { t \<leftarrow> Initialize_tour n;
          cs \<leftarrow> wr (cities t) (int (count t)) 0;
          c \<leftarrow> rd mat (int i);
          Some \<lparr>tour_p = t\<lparr>cities := cs, count := count t + 1\<rparr>, city = int i, elt_cost = c\<rparr> }"

text \<open>The seeding loop over \<open>i = first_final_city, ..., last_final_city\<close>: each node is
  attached at the tail, and \<open>my_count\<close> is incremented.\<close>

fun seed_loop :: "nat \<Rightarrow> weight_t list \<Rightarrow> nat list \<Rightarrow> stack_t \<Rightarrow> nat \<Rightarrow> (stack_t \<times> nat) option" where
  "seed_loop n mat [] st k = Some (st, k)"
| "seed_loop n mat (i # is) st k =
     do { e \<leftarrow> seed_elt n mat i; seed_loop n mat is (st @ [e]) (k + 1) }"

text \<open>The values of \<open>i\<close> in \<open>for (i = first_final_city; i <= last_final_city; i++)\<close>.\<close>

definition final_cities :: "nat \<Rightarrow> nat \<Rightarrow> nat \<Rightarrow> nat list" where
  "final_cities n thread_count my_rank =
     [first_final_city n thread_count my_rank ..< last_final_city n thread_count my_rank + 1]"

definition Search_init :: "nat \<Rightarrow> weight_t list \<Rightarrow> nat \<Rightarrow> nat \<Rightarrow> locals option" where
  "Search_init n mat thread_count my_rank =
     do { (st, k) \<leftarrow> seed_loop n mat (final_cities n thread_count my_rank) [] 0;
          Some \<lparr>stack_p = st, my_count = k, l_best_tour = INFINITY\<rparr> }"

text \<open>\<open>Pop\<close>, \<open>my_count--\<close>, and the extension of the popped tour in place.\<close>

definition Extend :: "'a locals_scheme \<Rightarrow> (tour_t \<times> city_t \<times> 'a locals_scheme) option" where
  "Extend loc =
     do { (t, cty, c, st) \<leftarrow> Pop (stack_p loc);
          cs \<leftarrow> wr (cities t) (int (count t)) cty;
          Some (t\<lparr>cities := cs, cost := add_int (cost t) c, count := count t + 1\<rparr>, cty,
                loc\<lparr>stack_p := st, my_count := my_count loc - 1\<rparr>) }"

text \<open>The loop \<open>for (nbr = n - 1; nbr > 0; nbr--)\<close>, entered with \<open>nbr\<close>.\<close>

fun Expand_loop ::
  "nat \<Rightarrow> weight_t list \<Rightarrow> city_t \<Rightarrow> tour_t \<Rightarrow> nat \<Rightarrow> 'a locals_scheme \<Rightarrow> 'a locals_scheme option" where
  "Expand_loop n mat cty t 0 loc = Some loc"
| "Expand_loop n mat cty t (Suc m) loc =
     do { f \<leftarrow> Feasible n mat cty (int (Suc m)) t (l_best_tour loc);
          if f then
            do { c \<leftarrow> rd mat (int n * cty + int (Suc m));
                 st \<leftarrow> Push n t (int (Suc m)) c (stack_p loc);
                 Expand_loop n mat cty t m (loc\<lparr>stack_p := st, my_count := my_count loc + 1\<rparr>) }
          else Expand_loop n mat cty t m loc }"

definition Expand :: "nat \<Rightarrow> weight_t list \<Rightarrow> city_t \<Rightarrow> tour_t \<Rightarrow> 'a locals_scheme \<Rightarrow> 'a locals_scheme option" where
  "Expand n mat cty t loc = Expand_loop n mat cty t (n - 1) loc"

text \<open>
  One round of the \<open>while\<close> loop of \<open>Search\<close>, after \<open>Terminated\<close> has returned FALSE,
  run without another writer of \<open>best_tour\<close> in between: the new champion and the new
  locals.
\<close>

definition Search_body ::
  "nat \<Rightarrow> weight_t list \<Rightarrow> tour_t \<Rightarrow> 'a locals_scheme \<Rightarrow> (tour_t \<times> 'a locals_scheme) option" where
  "Search_body n mat best loc =
     do { (t, cty, loc1) \<leftarrow> Extend loc;
          if count t = n then
            do { (best', l) \<leftarrow> Check_best_tour n mat cty t best;
                 Some (best', loc1\<lparr>l_best_tour := l\<rparr>) }
          else
            do { loc2 \<leftarrow> Expand n mat cty t loc1; Some (best, loc2) } }"

text \<open>The nodes at positions 1st, 3rd, 5th, ... and at positions 2nd, 4th, ... of a list.\<close>

fun odd_positions :: "'a list \<Rightarrow> 'a list" where
  "odd_positions [] = []"
| "odd_positions [x] = [x]"
| "odd_positions (x # y # xs) = x # odd_positions xs"

fun even_positions :: "'a list \<Rightarrow> 'a list" where
  "even_positions [] = []"
| "even_positions [x] = []"
| "even_positions (x # y # xs) = y # even_positions xs"

subsection \<open>Terminated and the shared variables\<close>

record shared =
  best_tour :: tour_t
  threads_in_cond_wait :: nat
  new_stack :: stack_t
  new_stack_size :: nat

text \<open>
  A call of \<open>Terminated\<close> either returns, or blocks in \<open>pthread_cond_wait\<close>. The call
  may signal or broadcast on \<open>term_cond_var\<close> on its way.
\<close>

datatype term_result = Returned bool | Blocked

datatype cond_op = No_op | Cond_signal | Cond_broadcast

text \<open>
  \<open>Terminated\<close> up to its return or up to \<open>pthread_cond_wait\<close>. The unlocked test of
  the first \<open>if\<close> and the locked section after it are taken at one moment.
\<close>

definition Terminated ::
  "nat \<Rightarrow> 'a locals_scheme \<Rightarrow> 'b shared_scheme
    \<Rightarrow> (term_result \<times> cond_op \<times> 'a locals_scheme \<times> 'b shared_scheme) option" where
  "Terminated thread_count loc g =
     (if 2 \<le> my_count loc \<and> 0 < threads_in_cond_wait g \<and> new_stack g = [] then
        (if 0 < threads_in_cond_wait g \<and> new_stack g = [] then
           do { (my, new, my_size, new_size) \<leftarrow> Split_stack (stack_p loc);
                Some (Returned False, Cond_signal,
                      loc\<lparr>stack_p := my, my_count := my_size\<rparr>,
                      g\<lparr>new_stack := new, new_stack_size := new_size\<rparr>) }
         else Some (Returned False, No_op, loc, g))
      else if \<not> Empty (stack_p loc) then Some (Returned False, No_op, loc, g)
      else if int (threads_in_cond_wait g) = int thread_count - 1 then
        Some (Returned True, Cond_broadcast, loc,
              g\<lparr>threads_in_cond_wait := threads_in_cond_wait g + 1\<rparr>)
      else
        Some (Blocked, No_op, loc, g\<lparr>threads_in_cond_wait := threads_in_cond_wait g + 1\<rparr>))"

text \<open>
  The rest of \<open>Terminated\<close>, run when \<open>pthread_cond_wait\<close> has returned with the
  mutex held: the value returned, the caller's locals and the shared variables.
\<close>

definition Terminated_wake ::
  "nat \<Rightarrow> 'a locals_scheme \<Rightarrow> 'b shared_scheme \<Rightarrow> bool \<times> 'a locals_scheme \<times> 'b shared_scheme" where
  "Terminated_wake thread_count loc g =
     (if threads_in_cond_wait g < thread_count then
        (False,
         loc\<lparr>stack_p := new_stack g, my_count := new_stack_size g\<rparr>,
         g\<lparr>new_stack := [], new_stack_size := 0,
           threads_in_cond_wait := threads_in_cond_wait g - 1\<rparr>)
      else (True, loc, g))"

subsection \<open>The threads together\<close>

text \<open>
  Where a worker stands: about to call \<open>Terminated\<close>; in the loop body after
  \<open>Terminated\<close> returned FALSE; between the read-locked and the write-locked section
  of \<open>Check_best_tour\<close>, holding the tour and its last city; blocked in
  \<open>pthread_cond_wait\<close>; released from the wait and about to run on with the mutex;
  returned from \<open>Search\<close>.
\<close>

datatype pc_t = At_Terminated | In_body | Upgrading tour_t city_t | Parked | Woken | Halted

record worker = locals +
  pc :: pc_t

record config = shared +
  workers :: "worker list"

text \<open>
  \<open>pthread_cond_signal\<close> releases one of the blocked threads when there is one: the
  thread \<open>j\<close> the scheduler names when that one is blocked, otherwise the blocked
  thread of least rank. \<open>pthread_cond_broadcast\<close> releases all of them. A thread
  leaves \<open>pthread_cond_wait\<close> only when released (no spurious wake-up).
\<close>

definition wake :: "worker \<Rightarrow> worker" where
  "wake w = (if pc w = Parked then w\<lparr>pc := Woken\<rparr> else w)"

definition cond_signal :: "nat \<Rightarrow> worker list \<Rightarrow> worker list" where
  "cond_signal j ws =
     (if j < length ws \<and> pc (ws ! j) = Parked then ws[j := wake (ws ! j)]
      else case find (\<lambda>k. pc (ws ! k) = Parked) [0..<length ws] of
             None \<Rightarrow> ws
           | Some k \<Rightarrow> ws[k := wake (ws ! k)])"

definition cond_broadcast :: "worker list \<Rightarrow> worker list" where
  "cond_broadcast ws = map wake ws"

definition cond_apply :: "cond_op \<Rightarrow> nat \<Rightarrow> worker list \<Rightarrow> worker list" where
  "cond_apply op j ws =
     (case op of No_op \<Rightarrow> ws | Cond_signal \<Rightarrow> cond_signal j ws
      | Cond_broadcast \<Rightarrow> cond_broadcast ws)"

definition pc_after :: "term_result \<Rightarrow> pc_t" where
  "pc_after r = (case r of Returned b \<Rightarrow> (if b then Halted else In_body) | Blocked \<Rightarrow> Parked)"

text \<open>
  One atomic step of the worker of rank \<open>i\<close>; each step holds at most one section
  under a lock. A blocked or returned worker does not move.
\<close>

definition worker_step ::
  "nat \<Rightarrow> weight_t list \<Rightarrow> nat \<Rightarrow> nat \<Rightarrow> nat \<Rightarrow> config \<Rightarrow> config option" where
  "worker_step n mat thread_count i j c =
     (if i < length (workers c) then
        (let w = workers c ! i in
         case pc w of
           At_Terminated \<Rightarrow>
             do { (r, op, w', c') \<leftarrow> Terminated thread_count w c;
                  Some (c'\<lparr>workers :=
                    cond_apply op j ((workers c')[i := w'\<lparr>pc := pc_after r\<rparr>])\<rparr>) }
         | In_body \<Rightarrow>
             do { (t, cty, w1) \<leftarrow> Extend w;
                  if count t = n then
                    do { (l, upgrade) \<leftarrow> Check_best_tour_rd n mat cty t (best_tour c);
                         Some (c\<lparr>workers := (workers c)
                           [i := w1\<lparr>l_best_tour := l,
                                   pc := (if upgrade then Upgrading t cty else At_Terminated)\<rparr>]\<rparr>) }
                  else
                    do { w2 \<leftarrow> Expand n mat cty t w1;
                         Some (c\<lparr>workers := (workers c)[i := w2\<lparr>pc := At_Terminated\<rparr>]\<rparr>) } }
         | Upgrading t cty \<Rightarrow>
             do { b \<leftarrow> Check_best_tour_wr n mat cty t (best_tour c);
                  Some (c\<lparr>best_tour := b,
                          workers := (workers c)[i := w\<lparr>pc := At_Terminated\<rparr>]\<rparr>) }
         | Parked \<Rightarrow> Some c
         | Woken \<Rightarrow>
             (case Terminated_wake thread_count w c of
                (r, w', c') \<Rightarrow>
                  Some (c'\<lparr>workers := (workers c')
                    [i := w'\<lparr>pc := (if r then Halted else In_body)\<rparr>]\<rparr>))
         | Halted \<Rightarrow> Some c)
      else Some c)"

text \<open>A schedule names, step by step, the worker that moves and the thread a signal
  of that step releases.\<close>

fun exec :: "nat \<Rightarrow> weight_t list \<Rightarrow> nat \<Rightarrow> (nat \<times> nat) list \<Rightarrow> config \<Rightarrow> config option" where
  "exec n mat thread_count [] c = Some c"
| "exec n mat thread_count ((i, j) # sched) c =
     do { c' \<leftarrow> worker_step n mat thread_count i j c; exec n mat thread_count sched c' }"

text \<open>The workers \<open>pthread_create\<close> starts, rank by rank, each with its seeds.\<close>

fun init_workers :: "nat \<Rightarrow> weight_t list \<Rightarrow> nat \<Rightarrow> nat list \<Rightarrow> worker list option" where
  "init_workers n mat thread_count [] = Some []"
| "init_workers n mat thread_count (r # rs) =
     do { l \<leftarrow> Search_init n mat thread_count r;
          ws \<leftarrow> init_workers n mat thread_count rs;
          Some (\<lparr>stack_p = stack_p l, my_count = my_count l, l_best_tour = l_best_tour l,
                  pc = At_Terminated\<rparr> # ws) }"

text \<open>\<open>main\<close> from \<open>Initialize_tour(&best_tour)\<close> to the end of the creation loop.\<close>

definition init_config :: "nat \<Rightarrow> weight_t list \<Rightarrow> nat \<Rightarrow> config option" where
  "init_config n mat thread_count =
     do { b \<leftarrow> Initialize_tour n;
          ws \<leftarrow> init_workers n mat thread_count [0..<thread_count];
          Some \<lparr>best_tour = b\<lparr>cost := INFINITY\<rparr>, threads_in_cond_wait = 0,
                 new_stack = [], new_stack_size = 0, workers = ws\<rparr> }"

definition run :: "nat \<Rightarrow> weight_t list \<Rightarrow> nat \<Rightarrow> (nat \<times> nat) list \<Rightarrow> config option" where
  "run n mat thread_count sched =
     do { c \<leftarrow> init_config n mat thread_count; exec n mat thread_count sched c }"

text \<open>\<open>main\<close> prints \<open>best_tour.cost\<close> once every \<open>pthread_join\<close> has returned.\<close>

definition all_halted :: "config \<Rightarrow> bool" where
  "all_halted c = list_all (\<lambda>w. pc w = Halted) (workers c)"

subsection \<open>The command line\<close>

text \<open>
  What a run of \<open>main\<close> leaves behind: the exit status, what was written to \<open>stderr\<close> and to
  \<open>stdout\<close>, and the number of \<open>pthread_create\<close> calls.
\<close>

record outcome =
  status :: int
  err :: string
  out :: string
  created :: nat

text \<open>
  The C library's \<open>strtol (s, NULL, 10)\<close>: white space is skipped, a sign is optional, the
  longest run of decimal digits is converted, no digit at all gives 0, and the value is
  clamped to the range of \<open>long\<close> (64 bits). \<open>main\<close> stores the result in the \<open>int\<close>
  \<open>thread_count\<close>, which keeps the low 32 bits (\<open>wrap_int\<close>).
\<close>

definition isspace :: "char \<Rightarrow> bool" where
  "isspace ch = (ch \<in> set [CHR '' '', CHR 0x09, CHR 0x0A, CHR 0x0B, CHR 0x0C, CHR 0x0D])"

definition digit_of :: "char \<Rightarrow> nat option" where
  "digit_of ch = map_of (zip ''0123456789'' [0, 1, 2, 3, 4, 5, 6, 7, 8, 9]) ch"

fun strtol_digits :: "nat \<Rightarrow> string \<Rightarrow> nat" where
  "strtol_digits acc [] = acc"
| "strtol_digits acc (ch # s) =
     (case digit_of ch of Some d \<Rightarrow> strtol_digits (10 * acc + d) s | None \<Rightarrow> acc)"

definition LONG_MAX :: int where
  "LONG_MAX = 9223372036854775807"

definition strtol :: "string \<Rightarrow> int" where
  "strtol s =
     (case dropWhile isspace s of
        [] \<Rightarrow> 0
      | ch # s2 \<Rightarrow>
          if ch = CHR ''-'' then max (- int (strtol_digits 0 s2)) (- LONG_MAX - 1)
          else if ch = CHR ''+'' then min (int (strtol_digits 0 s2)) LONG_MAX
          else min (int (strtol_digits 0 (ch # s2))) LONG_MAX)"

text \<open>The conversion \<open>%d\<close> of \<open>printf\<close>.\<close>

fun dec_nat :: "nat \<Rightarrow> string" where
  "dec_nat k =
     (if k < 10 then [''0123456789'' ! k]
      else dec_nat (k div 10) @ [''0123456789'' ! (k mod 10)])"

definition dec :: "int \<Rightarrow> string" where
  "dec x = (if x < 0 then CHR ''-'' # dec_nat (nat (- x)) else dec_nat (nat x))"

text \<open>
  \<open>Usage\<close> writes the usage line to \<open>stderr\<close> and calls \<open>exit (0)\<close>; \<open>printed\<close> is what
  \<open>stderr\<close> holds already.
\<close>

definition Usage :: "string \<Rightarrow> string \<Rightarrow> outcome" where
  "Usage printed prog_name =
     \<lparr>status = 0,
      err = printed @ ''usage: '' @ prog_name @ '' <number of threads> <matrix file>'' @ [CHR 0x0A],
      out = [], created = 0\<rparr>"

text \<open>
  \<open>Read_mat\<close> reads \<open>n\<close> and then \<open>n * n\<close> weights. The file is given by the integers
  \<open>fscanf\<close> finds in it. A file with too few integers leaves cells of \<open>mat\<close> unwritten, and
  the counters of the model start at one city: both are \<open>None\<close>.
\<close>

definition Read_mat :: "int list \<Rightarrow> (nat \<times> weight_t list) option" where
  "Read_mat toks =
     (case toks of
        [] \<Rightarrow> None
      | k # rest \<Rightarrow>
          if 1 \<le> k \<and> nat k * nat k \<le> length rest then Some (nat k, take (nat k * nat k) rest)
          else None)"

definition Print_tour :: "tour_t \<Rightarrow> string \<Rightarrow> string option" where
  "Print_tour t title =
     (if count t \<le> length (cities t) then
        Some (title @ '':'' @ [CHR 0x0A]
              @ concat (map (\<lambda>c. dec c @ '' '') (take (count t) (cities t)))
              @ [CHR 0x0A, CHR 0x0A])
      else None)"

text \<open>
  \<open>main\<close>, with the files that \<open>fopen\<close> can open given as a map from names to contents. The
  loop over \<open>pthread_create\<close> starts \<open>thread_count\<close> workers, none when \<open>thread_count \<le> 0\<close>.
  \<open>pthread_join\<close> returns once every worker has halted; a schedule that ends earlier gives
  no outcome.
\<close>

definition main :: "(string \<Rightarrow> int list option) \<Rightarrow> (nat \<times> nat) list \<Rightarrow> string list
    \<Rightarrow> outcome option" where
  "main fopen sched argv =
     (if length argv \<noteq> 3 then map_option (Usage []) (rd argv 0)
      else
        let thread_count = wrap_int (strtol (argv ! 1)) in
        case fopen (argv ! 2) of
          None \<Rightarrow> Some (Usage (''Can't open '' @ argv ! 2 @ [CHR 0x0A]) (argv ! 0))
        | Some toks \<Rightarrow>
            do { (n, mat) \<leftarrow> Read_mat toks;
                 c \<leftarrow> run n mat (nat thread_count) sched;
                 if all_halted c then
                   do { s \<leftarrow> Print_tour (best_tour c) ''Best tour'';
                        Some \<lparr>status = 0, err = [],
                              out = s @ ''Cost = '' @ dec (cost (best_tour c)) @ [CHR 0x0A],
                              created = nat thread_count\<rparr> }
                 else None })"

subsection \<open>Auxiliary notions for the statements\<close>

text \<open>The first city of the slice of rank \<open>r\<close> in closed form (used in proofs only).\<close>

definition slice_start :: "nat \<Rightarrow> nat \<Rightarrow> nat \<Rightarrow> nat" where
  "slice_start n T r = 1 + r * quotient n T + min r (remainder n T)"

text \<open>The cost matrix of the end-to-end example, four cities, row-major.\<close>

definition example_mat :: "weight_t list" where
  "example_mat = [0, 1, 4, 5,  2, 0, 3, 1,  3, 2, 0, 2,  1, 5, 3, 0]"

text \<open>
  A sequence of submissions \<open>(city, tour)\<close> to \<open>Check_best_tour\<close>, one after the
  other, each starting from the champion the previous one left.
\<close>

fun Check_all :: "nat \<Rightarrow> weight_t list \<Rightarrow> (city_t \<times> tour_t) list \<Rightarrow> tour_t \<Rightarrow> tour_t option" where
  "Check_all n mat [] best = Some best"
| "Check_all n mat ((cty, t) # subs) best =
     do { (best', l) \<leftarrow> Check_best_tour n mat cty t best; Check_all n mat subs best' }"

text \<open>The integers an \<open>int\<close> can hold.\<close>

definition in_int :: "int \<Rightarrow> bool" where
  "in_int x = (- 2147483648 \<le> x \<and> x \<le> 2147483647)"

text \<open>
  The cost of a submitted tour with its closing edge back to city 0: the sum of the two, and
  the value \<open>Check_best_tour\<close> computes for it.
\<close>

definition closing_sum :: "nat \<Rightarrow> weight_t list \<Rightarrow> city_t \<times> tour_t \<Rightarrow> int" where
  "closing_sum n mat s = cost (snd s) + mat ! (nat (fst s) * n)"

definition closing_cost :: "nat \<Rightarrow> weight_t list \<Rightarrow> city_t \<times> tour_t \<Rightarrow> int" where
  "closing_cost n mat s = add_int (cost (snd s)) (mat ! (nat (fst s) * n))"

text \<open>
  A submission is well-formed when the tour is complete up to the closing edge
  (\<open>count = n\<close> within its array) and its last city is a city of the matrix.
\<close>

definition submission_ok :: "nat \<Rightarrow> city_t \<times> tour_t \<Rightarrow> bool" where
  "submission_ok n s =
     (count (snd s) = n \<and> n \<le> length (cities (snd s)) \<and> 0 \<le> fst s \<and> nat (fst s) < n)"

text \<open>
  The test \<open>Feasible\<close> makes on neighbour \<open>nbr\<close> of a tour whose last city is
  \<open>cty\<close>, and the node \<open>Push\<close> builds for it, written on lists.
\<close>

definition feasible_nbr :: "nat \<Rightarrow> weight_t list \<Rightarrow> city_t \<Rightarrow> tour_t \<Rightarrow> int \<Rightarrow> nat \<Rightarrow> bool" where
  "feasible_nbr n mat cty t l nbr =
     (int nbr \<notin> set (take (count t) (cities t))
      \<and> add_int (cost t) (mat ! (n * nat cty + nbr)) < l)"

definition child :: "nat \<Rightarrow> weight_t list \<Rightarrow> city_t \<Rightarrow> tour_t \<Rightarrow> nat \<Rightarrow> stack_elt_t" where
  "child n mat cty t nbr =
     \<lparr>tour_p = \<lparr>cities = take n (cities t), count = count t, cost = cost t\<rparr>,
      city = int nbr, elt_cost = mat ! (n * nat cty + nbr)\<rparr>"

text \<open>The popped tour of a node after its extension in place by the node's city.\<close>

definition extended :: "stack_elt_t \<Rightarrow> tour_t" where
  "extended e =
     \<lparr>cities = (cities (tour_p e))[count (tour_p e) := city e],
      count = count (tour_p e) + 1,
      cost = add_int (cost (tour_p e)) (elt_cost e)\<rparr>"

text \<open>The cities a tour has visited, in order, and the cost of a path in the matrix.\<close>

definition visited :: "tour_t \<Rightarrow> city_t list" where
  "visited t = take (count t) (cities t)"

fun path_cost :: "nat \<Rightarrow> weight_t list \<Rightarrow> city_t list \<Rightarrow> int" where
  "path_cost n mat (a # b # cs) = mat ! (n * nat a + nat b) + path_cost n mat (b # cs)"
| "path_cost n mat [a] = 0"
| "path_cost n mat [] = 0"

text \<open>
  A well-formed tour: between 1 and \<open>n\<close> visited cities inside an array of at least
  \<open>n\<close> cells, starting at city 0, without a repeated city, every city one of the
  matrix, and the cost the sum of the edges travelled, as an \<open>int\<close> holds it.
\<close>

definition tour_ok :: "nat \<Rightarrow> weight_t list \<Rightarrow> tour_t \<Rightarrow> bool" where
  "tour_ok n mat t =
     (1 \<le> count t \<and> count t \<le> n \<and> n \<le> length (cities t)
      \<and> hd (visited t) = 0 \<and> distinct (visited t)
      \<and> list_all (\<lambda>c. 0 \<le> c \<and> c < int n) (visited t)
      \<and> cost t = wrap_int (path_cost n mat (visited t)))"

text \<open>
  A well-formed stack node: a well-formed tour that is not yet complete, and a
  candidate city other than 0 that the tour has not visited, with the cost of the edge
  from the tour's last city to it.
\<close>

definition elt_ok :: "nat \<Rightarrow> weight_t list \<Rightarrow> stack_elt_t \<Rightarrow> bool" where
  "elt_ok n mat e =
     (tour_ok n mat (tour_p e) \<and> count (tour_p e) < n
      \<and> 0 < city e \<and> city e < int n \<and> city e \<notin> set (visited (tour_p e))
      \<and> elt_cost e = mat ! (n * nat (last (visited (tour_p e))) + nat (city e)))"

text \<open>What the place of a worker in its code says about its stack.\<close>

definition pc_ok :: "nat \<Rightarrow> weight_t list \<Rightarrow> worker \<Rightarrow> bool" where
  "pc_ok n mat w =
     (case pc w of
        At_Terminated \<Rightarrow> True
      | In_body \<Rightarrow> stack_p w \<noteq> []
      | Upgrading t cty \<Rightarrow> tour_ok n mat t \<and> count t = n \<and> cty = last (visited t)
      | Parked \<Rightarrow> stack_p w = []
      | Woken \<Rightarrow> stack_p w = []
      | Halted \<Rightarrow> stack_p w = [])"

definition worker_ok :: "nat \<Rightarrow> weight_t list \<Rightarrow> worker \<Rightarrow> bool" where
  "worker_ok n mat w =
     (list_all (elt_ok n mat) (stack_p w) \<and> my_count w = length (stack_p w) \<and> pc_ok n mat w)"

definition waiting :: "worker \<Rightarrow> bool" where
  "waiting w = (pc w = Parked \<or> pc w = Woken)"

text \<open>
  The bookkeeping of the termination protocol. Until the last worker has found the
  others waiting, \<open>threads_in_cond_wait\<close> counts the workers blocked or released but
  not yet running, no worker has returned, and a worker is released and not yet running
  exactly when a donation sits in \<open>new_stack\<close>. From then on the counter equals
  \<open>thread_count\<close> and every worker has returned or is about to.
\<close>

definition coord_ok :: "nat \<Rightarrow> config \<Rightarrow> bool" where
  "coord_ok thread_count c =
     (length (workers c) = thread_count
      \<and> new_stack_size c = length (new_stack c)
      \<and> (if threads_in_cond_wait c < thread_count then
            threads_in_cond_wait c = length (filter waiting (workers c))
            \<and> list_all (\<lambda>w. pc w \<noteq> Halted) (workers c)
            \<and> length (filter (\<lambda>w. pc w = Woken) (workers c)) = (if new_stack c = [] then 0 else 1)
          else
            threads_in_cond_wait c = thread_count
            \<and> list_all (\<lambda>w. pc w = Woken \<or> pc w = Halted) (workers c)))"

definition config_ok :: "nat \<Rightarrow> weight_t list \<Rightarrow> nat \<Rightarrow> config \<Rightarrow> bool" where
  "config_ok n mat thread_count c =
     (coord_ok thread_count c
      \<and> list_all (worker_ok n mat) (workers c)
      \<and> list_all (elt_ok n mat) (new_stack c)
      \<and> length (cities (best_tour c)) = n + 1)"

text \<open>The worker of rank \<open>r\<close> as \<open>Search\<close> leaves it after the seeding loop.\<close>

definition seed_worker :: "nat \<Rightarrow> weight_t list \<Rightarrow> nat \<Rightarrow> nat \<Rightarrow> worker" where
  "seed_worker n mat T r =
     \<lparr>stack_p = map (\<lambda>i. \<lparr>tour_p = \<lparr>cities = 0 # replicate n NO_CITY, count = 1, cost = 0\<rparr>,
                            city = int i, elt_cost = mat ! i\<rparr>) (final_cities n T r),
      my_count = length (final_cities n T r), l_best_tour = INFINITY, pc = At_Terminated\<rparr>"

text \<open>
  A well-formed cost matrix: \<open>n * n\<close> cells, zero on the diagonal, positive off it.
\<close>

definition valid_matrix :: "nat \<Rightarrow> weight_t list \<Rightarrow> bool" where
  "valid_matrix n mat =
     (1 \<le> n \<and> length mat = n * n
      \<and> list_all (\<lambda>i. list_all (\<lambda>j. if i = j then mat ! (n * i + j) = 0
                                        else 0 < mat ! (n * i + j)) [0..<n]) [0..<n])"

text \<open>
  A Hamiltonian cycle from city 0 is given by the order \<open>p\<close> in which it visits the
  \<open>n\<close> cities, starting with 0; its cost includes the closing edge back to 0.
\<close>

definition ham :: "nat \<Rightarrow> city_t list \<Rightarrow> bool" where
  "ham n p = (length p = n \<and> hd p = 0 \<and> distinct p \<and> list_all (\<lambda>c. 0 \<le> c \<and> c < int n) p)"

definition cycle_cost :: "nat \<Rightarrow> weight_t list \<Rightarrow> city_t list \<Rightarrow> int" where
  "cycle_cost n mat p = path_cost n mat (p @ [0])"





text \<open>
  A node covers a cycle when the cycle starts with the node's tour followed by the
  node's candidate city. A worker holds a cycle when a node on its stack covers it, or
  when it carries the cycle between the two sections of \<open>Check_best_tour\<close>. A cycle is
  pending when a worker holds it or a node in \<open>new_stack\<close> covers it.
\<close>

definition covers :: "stack_elt_t \<Rightarrow> city_t list \<Rightarrow> bool" where
  "covers e p = prefix (visited (tour_p e) @ [city e]) p"

definition holds :: "worker \<Rightarrow> city_t list \<Rightarrow> bool" where
  "holds w p =
     ((\<exists>e\<in>set (stack_p w). covers e p)
      \<or> (case pc w of Upgrading t cty \<Rightarrow> visited t = p | _ \<Rightarrow> False))"



text \<open>The matrix of a run in which a donation is lost, four cities, row-major.\<close>

definition race_mat :: "weight_t list" where
  "race_mat = [0, 4, 1, 5,  3, 0, 2, 2,  2, 3, 0, 1,  1, 2, 5, 0]"







text \<open>A file system with one matrix file, holding the matrix of the end-to-end example.\<close>

definition example_files :: "string \<Rightarrow> int list option" where
  "example_files name = (if name = ''mat.txt'' then Some (4 # example_mat) else None)"

section \<open>Properties\<close>

subsection \<open>Sums of costs\<close>

lemma wrap_int_0 [simp]: "wrap_int 0 = 0"
  by (simp add: wrap_int_def)

lemma wrap_int_id: "in_int x \<Longrightarrow> wrap_int x = x"
  by (simp add: wrap_int_def in_int_def)

lemma in_int_wrap_int: "in_int (wrap_int x)"
proof -
  have "0 \<le> (x + 2147483648) mod 4294967296" by simp
  moreover have "(x + 2147483648) mod 4294967296 < 4294967296" by simp
  ultimately show ?thesis unfolding wrap_int_def in_int_def by linarith
qed

lemma wrap_int_add_left [simp]: "wrap_int (wrap_int a + b) = wrap_int (a + b)"
proof -
  have "((a + 2147483648) mod 4294967296 + b) mod 4294967296
      = (a + 2147483648 + b) mod 4294967296"
    by (rule mod_add_left_eq)
  then show ?thesis by (simp add: wrap_int_def algebra_simps)
qed

lemma add_int_wrap [simp]: "add_int (wrap_int a) b = wrap_int (a + b)"
  by (simp add: add_int_def)

lemma add_int_exact: "in_int (a + b) \<Longrightarrow> add_int a b = a + b"
  by (simp add: add_int_def wrap_int_id)

subsection \<open>Split\_stack\<close>

lemma Split_loop_eq:
  "Split_loop rest my new ms ns =
     (my @ odd_positions rest, new @ even_positions rest,
      ms + length (odd_positions rest), ns + length (even_positions rest))"
  by (induction rest my new ms ns rule: Split_loop.induct) simp_all

lemma odd_positions_nth: "i < length (odd_positions xs) \<Longrightarrow> odd_positions xs ! i = xs ! (2 * i)"
proof (induction xs arbitrary: i rule: odd_positions.induct)
  case (3 x y xs)
  then show ?case by (cases i) simp_all
qed simp_all

lemma even_positions_nth: "i < length (even_positions xs) \<Longrightarrow> even_positions xs ! i = xs ! (2 * i + 1)"
proof (induction xs arbitrary: i rule: even_positions.induct)
  case (3 x y xs)
  then show ?case by (cases i) simp_all
qed simp_all

lemma length_odd_positions: "length (odd_positions xs) = (length xs + 1) div 2"
  by (induction xs rule: odd_positions.induct) auto

lemma length_even_positions: "length (even_positions xs) = length xs div 2"
  by (induction xs rule: even_positions.induct) auto

lemma subseq_odd_positions: "subseq (odd_positions xs) xs"
  by (induction xs rule: odd_positions.induct) auto

lemma subseq_even_positions: "subseq (even_positions xs) xs"
  by (induction xs rule: even_positions.induct) auto

lemma mset_positions: "mset (odd_positions xs) + mset (even_positions xs) = mset xs"
  by (induction xs rule: odd_positions.induct) auto

lemma Split_stack_eq:
  "2 \<le> length st \<Longrightarrow>
   Split_stack st = Some (odd_positions st, even_positions st,
      length (odd_positions st), length (even_positions st))"
  by (cases st rule: odd_positions.cases) (auto simp: Split_stack_def Split_loop_eq)

text \<open>
  Claim C3. A stack of at least two nodes is split by strict alternation: the caller
  keeps the 1st, 3rd, 5th, ... node and \<open>new_stack\<close> receives the 2nd, 4th, ... node.
  Each half is in the original order, the two halves together hold every node exactly
  once, their sizes are the half rounded up and the half rounded down, and these sizes
  are the values stored into \<open>*my_stack_size\<close> and \<open>new_stack_size\<close>.
\<close>

theorem Split_stack_alternates:
  assumes "2 \<le> length st"
  shows "\<exists>my new. Split_stack st = Some (my, new, length my, length new)
     \<and> my = odd_positions st \<and> new = even_positions st
     \<and> (\<forall>i < length my. my ! i = st ! (2 * i))
     \<and> (\<forall>i < length new. new ! i = st ! (2 * i + 1))
     \<and> subseq my st \<and> subseq new st
     \<and> mset my + mset new = mset st
     \<and> length my = (length st + 1) div 2 \<and> length new = length st div 2"
  using assms
  by (simp add: Split_stack_eq odd_positions_nth even_positions_nth length_odd_positions
      length_even_positions subseq_odd_positions subseq_even_positions mset_positions)

theorem Split_stack_alternates_witness:
  "2 \<le> length [\<lparr>tour_p = \<lparr>cities = [0, 1, 3], count = 1, cost = 0\<rparr>, city = 1, elt_cost = 4\<rparr>,
                 \<lparr>tour_p = \<lparr>cities = [0, 1, 3], count = 1, cost = 0\<rparr>, city = 2, elt_cost = 5\<rparr>,
                 \<lparr>tour_p = \<lparr>cities = [0, 1, 3], count = 1, cost = 0\<rparr>, city = 3, elt_cost = 6\<rparr>]
   \<and> Split_stack [\<lparr>tour_p = \<lparr>cities = [0, 1, 3], count = 1, cost = 0\<rparr>, city = 1, elt_cost = 4\<rparr>,
                 \<lparr>tour_p = \<lparr>cities = [0, 1, 3], count = 1, cost = 0\<rparr>, city = 2, elt_cost = 5\<rparr>,
                 \<lparr>tour_p = \<lparr>cities = [0, 1, 3], count = 1, cost = 0\<rparr>, city = 3, elt_cost = 6\<rparr>]
     = Some ([\<lparr>tour_p = \<lparr>cities = [0, 1, 3], count = 1, cost = 0\<rparr>, city = 1, elt_cost = 4\<rparr>,
              \<lparr>tour_p = \<lparr>cities = [0, 1, 3], count = 1, cost = 0\<rparr>, city = 3, elt_cost = 6\<rparr>],
             [\<lparr>tour_p = \<lparr>cities = [0, 1, 3], count = 1, cost = 0\<rparr>, city = 2, elt_cost = 5\<rparr>],
             2, 1)"
  using Split_stack_alternates
    [of "[\<lparr>tour_p = \<lparr>cities = [0, 1, 3], count = 1, cost = 0\<rparr>, city = 1, elt_cost = 4\<rparr>,
          \<lparr>tour_p = \<lparr>cities = [0, 1, 3], count = 1, cost = 0\<rparr>, city = 2, elt_cost = 5\<rparr>,
          \<lparr>tour_p = \<lparr>cities = [0, 1, 3], count = 1, cost = 0\<rparr>, city = 3, elt_cost = 6\<rparr>]"]
  by auto

subsection \<open>Arrays, Initialize\_tour and the seeds\<close>

declare Initialize_loop.simps [simp del] copy_loop.simps [simp del] Visited_loop.simps [simp del]

lemma rd_Some [simp]: "i < length a \<Longrightarrow> rd a (int i) = Some (a ! i)"
  by (simp add: rd_def)

lemma wr_Some [simp]: "i < length a \<Longrightarrow> wr a (int i) v = Some (a[i := v])"
  by (simp add: wr_def)

lemma rd_None [simp]: "length a \<le> i \<Longrightarrow> rd a (int i) = None"
  by (simp add: rd_def)

lemma wr_None [simp]: "length a \<le> i \<Longrightarrow> wr a (int i) v = None"
  by (simp add: wr_def)

lemma Initialize_loop_eq:
  "length cs = n + 1 \<Longrightarrow> i \<le> n + 1 \<Longrightarrow>
   Initialize_loop n cs i = Some (take i cs @ replicate (n + 1 - i) NO_CITY)"
proof (induction n cs i rule: Initialize_loop.induct)
  case (1 n cs i)
  show ?case
  proof (cases "i \<le> n")
    case True
    have "take (i + 1) (cs[i := NO_CITY]) = take i cs @ [NO_CITY]"
      using True 1(2) by (simp add: take_Suc_conv_app_nth)
    moreover have "replicate (n + 1 - i) NO_CITY = NO_CITY # replicate (n + 1 - (i + 1)) NO_CITY"
      using True by (simp add: Suc_diff_le flip: replicate_Suc)
    ultimately show ?thesis
      using True 1 by (subst Initialize_loop.simps) simp
  next
    case False
    then show ?thesis using 1(2,3) by (subst Initialize_loop.simps) simp
  qed
qed

lemma Initialize_tour_eq:
  "Initialize_tour n = Some \<lparr>cities = replicate (n + 1) NO_CITY, count = 0, cost = 0\<rparr>"
  by (simp add: Initialize_tour_def malloc_cities_def Initialize_loop_eq)

lemma seed_elt_eq:
  "i < length mat \<Longrightarrow>
   seed_elt n mat i = Some \<lparr>tour_p = \<lparr>cities = 0 # replicate n NO_CITY, count = 1, cost = 0\<rparr>,
      city = int i, elt_cost = mat ! i\<rparr>"
  by (simp add: seed_elt_def Initialize_tour_eq wr_def)

lemma seed_loop_eq:
  "\<forall>i \<in> set is. i < length mat \<Longrightarrow>
   seed_loop n mat is st k =
     Some (st @ map (\<lambda>i. \<lparr>tour_p = \<lparr>cities = 0 # replicate n NO_CITY, count = 1, cost = 0\<rparr>,
                          city = int i, elt_cost = mat ! i\<rparr>) is, k + length is)"
  by (induction "is" arbitrary: st k) (simp_all add: seed_elt_eq)

lemma first_final_city_eq: "first_final_city n T r = slice_start n T r"
  by (simp add: first_final_city_def slice_start_def partial_tour_count_def min_def)

lemma last_final_city_eq: "last_final_city n T r + 1 = slice_start n T (Suc r)"
  by (auto simp add: last_final_city_def first_final_city_eq slice_start_def partial_tour_count_def min_def)

lemma final_cities_eq: "final_cities n T r = [slice_start n T r ..< slice_start n T (Suc r)]"
  unfolding final_cities_def by (simp only: first_final_city_eq last_final_city_eq)

lemma slice_start_mono: "slice_start n T r \<le> slice_start n T (Suc r)"
  by (simp add: slice_start_def min_def)

lemma concat_upt_chain:
  "(\<And>r. f r \<le> f (Suc r)) \<Longrightarrow> concat (map (\<lambda>r. [f r ..< f (Suc r)]) [0..<k]) = [f 0 ..< f k]"
proof (induction k)
  case 0
  then show ?case by simp
next
  case (Suc k)
  have "f 0 \<le> f k" by (induction k) (auto intro: order_trans Suc.prems)
  then show ?case using Suc upt_add_eq_append[of "f 0" "f k" "f (Suc k) - f k"] by simp
qed

lemma slice_start_0: "slice_start n T 0 = 1"
  by (simp add: slice_start_def)

lemma slice_start_T: "1 \<le> n \<Longrightarrow> 1 \<le> T \<Longrightarrow> slice_start n T T = n"
proof -
  assume n: "1 \<le> n" and T: "1 \<le> T"
  have "(n - 1) mod T < T" using T by simp
  then have "min T ((n - 1) mod T) = (n - 1) mod T" by simp
  moreover have "T * ((n - 1) div T) + (n - 1) mod T = n - 1" by simp
  ultimately show ?thesis
    using n by (simp add: slice_start_def quotient_def remainder_def)
qed

lemma slices_concat:
  "1 \<le> n \<Longrightarrow> 1 \<le> T \<Longrightarrow>
   concat (map (\<lambda>r. final_cities n T r) [0..<T]) = [1..<n]"
proof -
  assume n: "1 \<le> n" and T: "1 \<le> T"
  have "(\<lambda>r. final_cities n T r)
      = (\<lambda>r. [slice_start n T r ..< slice_start n T (Suc r)])"
    by (simp only: final_cities_eq)
  then show ?thesis
    using concat_upt_chain[of "slice_start n T" T] n T
    by (simp only: slice_start_mono slice_start_0 slice_start_T)
qed

lemma slice_start_le: "r \<le> r' \<Longrightarrow> slice_start n T r \<le> slice_start n T r'"
  by (rule lift_Suc_mono_le[of "slice_start n T"]) (simp_all add: slice_start_mono)

lemma slice_bounds:
  assumes "1 \<le> n" "1 \<le> T" "r < T" "i \<in> set (final_cities n T r)"
  shows "1 \<le> i \<and> i < n"
proof -
  have "slice_start n T 0 \<le> slice_start n T r" by (rule slice_start_le) simp
  moreover have "slice_start n T (Suc r) \<le> slice_start n T T"
    using assms(3) by (intro slice_start_le) simp
  ultimately show ?thesis
    using assms by (simp add: final_cities_eq slice_start_0 slice_start_T)
qed

lemma slices_disjoint:
  assumes "r \<noteq> r'"
  shows "set (final_cities n T r)
       \<inter> set (final_cities n T r') = {}"
proof -
  have *: "set (final_cities n T a)
       \<inter> set (final_cities n T b) = {}" if "a < b" for a b
  proof -
    have "slice_start n T (Suc a) \<le> slice_start n T b"
      using that by (intro slice_start_le) simp
    then show ?thesis
      by (auto simp add: final_cities_eq)
  qed
  show ?thesis
  proof (cases "r < r'")
    case True
    then show ?thesis by (rule *)
  next
    case False
    then have "r' < r" using assms by simp
    then show ?thesis using *[of r' r] by blast
  qed
qed

lemma slice_length:
  "length (final_cities n T r) = partial_tour_count n T r"
  by (simp add: final_cities_def last_final_city_def first_final_city_def)

lemma partial_tour_count_ceil_floor:
  assumes "1 \<le> n" "1 \<le> T"
  shows "partial_tour_count n T r =
     (if r < (n - 1) mod T then (n - 1 + (T - 1)) div T else (n - 1) div T)"
proof (cases "r < (n - 1) mod T")
  case True
  define q where "q = (n - 1) div T"
  define m where "m = (n - 1) mod T"
  have m: "0 < m" "m < T" using True assms by (simp_all add: m_def)
  have "n - 1 = q * T + m" by (simp add: q_def m_def)
  moreover obtain k where k: "m = Suc k" using m(1) by (cases m) simp_all
  ultimately have "n - 1 + (T - 1) = k + (q + 1) * T" using m by simp
  moreover have "(k + (q + 1) * T) div T = (q + 1) + k div T"
  proof (rule div_mult_self1)
    show "T \<noteq> 0" using m by simp
  qed
  moreover have "k div T = 0" using m k by simp
  ultimately have "(n - 1 + (T - 1)) div T = q + 1" by simp
  then show ?thesis
    using True by (simp add: partial_tour_count_def remainder_def quotient_def q_def)
next
  case False
  then show ?thesis by (simp add: partial_tour_count_def remainder_def quotient_def)
qed

lemma Search_init_eq:
  assumes "1 \<le> n" "1 \<le> T" "length mat = n * n" "r < T"
  shows "Search_init n mat T r =
     Some \<lparr>stack_p = map (\<lambda>i. \<lparr>tour_p = \<lparr>cities = 0 # replicate n NO_CITY, count = 1, cost = 0\<rparr>,
                                 city = int i, elt_cost = mat ! i\<rparr>)
                         (final_cities n T r),
           my_count = partial_tour_count n T r, l_best_tour = INFINITY\<rparr>"
proof -
  have "\<forall>i \<in> set (final_cities n T r). i < length mat"
  proof
    fix i assume "i \<in> set (final_cities n T r)"
    then have "i < n" using slice_bounds assms by blast
    moreover have "n \<le> n * n" using assms(1) by (cases n) simp_all
    ultimately show "i < length mat" using assms(3) by linarith
  qed
  then show ?thesis
    unfolding Search_init_def by (simp only: seed_loop_eq slice_length) simp
qed

text \<open>
  Claim C7. For \<open>n \<ge> 1\<close> cities and \<open>T \<ge> 1\<close> workers, the first moves of the
  workers, taken in rank order, are the cities \<open>1, ..., n - 1\<close> in order (so the slices
  are contiguous and cover exactly these cities), two different workers share no city,
  a worker of rank below \<open>(n - 1) mod T\<close> gets the quotient rounded up and every
  other worker the quotient rounded down, and the stack a worker starts with holds,
  for each of its cities in order, the tour \<open>[0]\<close> of cost 0 with that city as
  candidate and \<open>mat[0][city]\<close> as edge cost.
\<close>

theorem Search_init_block_decomposition:
  assumes "1 \<le> n" "1 \<le> T" "length mat = n * n"
  shows "concat (map (\<lambda>r. final_cities n T r) [0..<T]) = [1..<n]
    \<and> (\<forall>r<T. \<forall>r'<T. r \<noteq> r' \<longrightarrow>
          set (final_cities n T r)
          \<inter> set (final_cities n T r') = {})
    \<and> (\<forall>r<T. length (final_cities n T r) =
          (if r < (n - 1) mod T then (n - 1 + (T - 1)) div T else (n - 1) div T))
    \<and> (\<forall>r<T. Search_init n mat T r =
          Some \<lparr>stack_p =
                  map (\<lambda>i. \<lparr>tour_p = \<lparr>cities = 0 # replicate n NO_CITY, count = 1, cost = 0\<rparr>,
                             city = int i, elt_cost = mat ! (0 * n + i)\<rparr>)
                    (final_cities n T r),
                my_count = length (final_cities n T r),
                l_best_tour = INFINITY\<rparr>)"
proof (intro conjI allI impI)
  show "concat (map (\<lambda>r. final_cities n T r) [0..<T]) = [1..<n]"
    using assms(1,2) by (simp only: slices_concat)
next
  fix r r' :: nat assume "r \<noteq> r'"
  then show "set (final_cities n T r) \<inter> set (final_cities n T r') = {}"
    by (rule slices_disjoint)
next
  fix r
  show "length (final_cities n T r) =
          (if r < (n - 1) mod T then (n - 1 + (T - 1)) div T else (n - 1) div T)"
    using assms by (simp only: slice_length partial_tour_count_ceil_floor)
next
  fix r assume "r < T"
  then show "Search_init n mat T r =
          Some \<lparr>stack_p =
                  map (\<lambda>i. \<lparr>tour_p = \<lparr>cities = 0 # replicate n NO_CITY, count = 1, cost = 0\<rparr>,
                             city = int i, elt_cost = mat ! (0 * n + i)\<rparr>)
                    (final_cities n T r),
                my_count = length (final_cities n T r),
                l_best_tour = INFINITY\<rparr>"
    using assms by (simp add: Search_init_eq slice_length)
qed

theorem Search_init_block_decomposition_witness:
  "(1::nat) \<le> 4 \<and> (1::nat) \<le> 2 \<and> length example_mat = 4 * 4
   \<and> final_cities 4 2 0 = [1, 2] \<and> final_cities 4 2 1 = [3]
   \<and> Search_init 4 example_mat 2 0 =
        Some \<lparr>stack_p =
          [\<lparr>tour_p = \<lparr>cities = [0, NO_CITY, NO_CITY, NO_CITY, NO_CITY], count = 1, cost = 0\<rparr>,
             city = 1, elt_cost = 1\<rparr>,
           \<lparr>tour_p = \<lparr>cities = [0, NO_CITY, NO_CITY, NO_CITY, NO_CITY], count = 1, cost = 0\<rparr>,
             city = 2, elt_cost = 4\<rparr>],
          my_count = 2, l_best_tour = INFINITY\<rparr>"
proof -
  have h: "(1::nat) \<le> 4" "(1::nat) \<le> 2" "length example_mat = 4 * 4"
    by (simp_all add: example_mat_def)
  have f: "final_cities 4 2 0 = [1, 2]" "final_cities 4 2 1 = [3]"
    by (simp_all add: final_cities_def first_final_city_def last_final_city_def
        partial_tour_count_def quotient_def remainder_def upt_conv_Cons)
  from Search_init_block_decomposition[OF h]
  have "Search_init 4 example_mat 2 0 =
          Some \<lparr>stack_p =
                  map (\<lambda>i. \<lparr>tour_p = \<lparr>cities = 0 # replicate 4 NO_CITY, count = 1, cost = 0\<rparr>,
                             city = int i, elt_cost = example_mat ! (0 * 4 + i)\<rparr>)
                    (final_cities 4 2 0),
                my_count = length (final_cities 4 2 0),
                l_best_tour = INFINITY\<rparr>"
    by simp
  then show ?thesis
    using h f by (simp add: example_mat_def numeral_eq_Suc)
qed

subsection \<open>Check\_best\_tour\<close>

lemma copy_loop_eq:
  "k \<le> length src \<Longrightarrow> k \<le> length dst \<Longrightarrow> i \<le> k \<Longrightarrow>
   copy_loop k src dst i = Some (take i dst @ take (k - i) (drop i src) @ drop k dst)"
proof (induction k src dst i rule: copy_loop.induct)
  case (1 k src dst i)
  show ?case
  proof (cases "i < k")
    case True
    have a: "take (i + 1) (dst[i := src ! i]) = take i dst @ [src ! i]"
      using True 1(3) by (simp add: take_Suc_conv_app_nth)
    have b: "take (k - i) (drop i src) = src ! i # take (k - (i + 1)) (drop (i + 1) src)"
    proof -
      have "drop i src = src ! i # drop (i + 1) src"
        using True 1(2) by (simp add: Cons_nth_drop_Suc)
      moreover obtain m where "k - i = Suc m" "k - (i + 1) = m"
        using True by (cases "k - i") simp_all
      ultimately show ?thesis by simp
    qed
    have c: "drop k (dst[i := src ! i]) = drop k dst"
      using True by simp
    have "copy_loop k src dst i = copy_loop k src (dst[i := src ! i]) (i + 1)"
      using True 1(2,3) by (subst copy_loop.simps) simp
    also have "\<dots> = Some (take (i + 1) (dst[i := src ! i]) @
        take (k - (i + 1)) (drop (i + 1) src) @ drop k (dst[i := src ! i]))"
      using True 1(2,3) by (intro 1(1)[OF True]) simp_all
    finally show ?thesis by (simp only: a b c) simp
  next
    case False
    then show ?thesis using 1(2,3,4) by (subst copy_loop.simps) simp
  qed
qed

lemma copy_loop_0:
  "k \<le> length src \<Longrightarrow> k \<le> length dst \<Longrightarrow>
   copy_loop k src dst 0 = Some (take k src @ drop k dst)"
  by (simp add: copy_loop_eq)

lemma rd_int: "0 \<le> i \<Longrightarrow> nat i < length a \<Longrightarrow> rd a i = Some (a ! nat i)"
  by (simp add: rd_def)

lemma closing_index:
  assumes "0 \<le> cty" "nat cty < n" "length mat = n * n"
  shows "rd mat (cty * int n) = Some (mat ! (nat cty * n))"
proof -
  have "nat cty * n < n * n" using assms(2) by simp
  moreover have "nat (cty * int n) = nat cty * n"
    using assms(1) by (simp add: nat_mult_distrib)
  ultimately show ?thesis using assms by (simp add: rd_int)
qed

lemma closing_cell:
  assumes "n \<le> length a" "length b = Suc n"
  shows "(take n a @ drop n b)[n := v] = take n a @ [v]"
proof -
  have "length (drop n b) = 1" using assms(2) by simp
  then obtain x where "drop n b = [x]"
    by (cases "drop n b") simp_all
  then show ?thesis using assms(1) by (simp add: list_update_append)
qed

lemma Check_best_tour_wr_eq:
  assumes "submission_ok n (cty, t)" "length (cities best) = n + 1" "length mat = n * n"
  shows "Check_best_tour_wr n mat cty t best =
     Some (if closing_cost n mat (cty, t) < cost best
           then \<lparr>cities = take n (cities t) @ [0], count = n + 1, cost = closing_cost n mat (cty, t)\<rparr>
           else best)"
  using assms
  by (simp add: Check_best_tour_wr_def submission_ok_def closing_index copy_loop_0
      closing_cost_def closing_cell)

lemma Check_best_tour_rd_eq:
  assumes "submission_ok n (cty, t)" "length mat = n * n"
  shows "Check_best_tour_rd n mat cty t best =
     Some (cost best, closing_cost n mat (cty, t) < cost best)"
  using assms
  by (simp add: Check_best_tour_rd_def submission_ok_def closing_index closing_cost_def)

lemma Check_best_tour_eq:
  assumes "submission_ok n (cty, t)" "length (cities best) = n + 1" "length mat = n * n"
  shows "Check_best_tour n mat cty t best =
     Some (if closing_cost n mat (cty, t) < cost best
           then \<lparr>cities = take n (cities t) @ [0], count = n + 1, cost = closing_cost n mat (cty, t)\<rparr>
           else best, cost best)"
  using assms
  by (simp add: Check_best_tour_def Check_best_tour_rd_eq Check_best_tour_wr_eq)

text \<open>
  Claim C4. \<open>Check_best_tour\<close>, given a tour of \<open>n\<close> cities ending in \<open>city\<close>
  whose cost plus the closing edge \<open>mat[city][0]\<close> is a sum an \<open>int\<close> can hold,
  changes the champion if and only if that sum is strictly below the champion's cost.
  When it does, the champion's
  cities become the \<open>n\<close> visited cities followed by city 0 at index \<open>n\<close>, its count
  becomes \<open>n + 1\<close> and its cost the tour's cost plus the closing edge; otherwise the
  champion is left as it was. The comparison is made in the read-locked section and made
  again in the write-locked section, against the champion current at that moment.
\<close>

theorem Check_best_tour_commits_iff_better:
  assumes "submission_ok n (cty, t)" "length (cities best) = n + 1" "length mat = n * n"
    "in_int (cost t + mat ! (nat cty * n))"
  shows "\<exists>best'. Check_best_tour n mat cty t best = Some (best', cost best)
     \<and> (best' \<noteq> best \<longleftrightarrow> cost t + mat ! (nat cty * n) < cost best)
     \<and> (cost t + mat ! (nat cty * n) < cost best \<longrightarrow>
           cities best' = take n (cities t) @ [0] \<and> cities best' ! n = 0
           \<and> count best' = n + 1 \<and> cost best' = cost t + mat ! (nat cty * n))
     \<and> (\<not> cost t + mat ! (nat cty * n) < cost best \<longrightarrow> best' = best)
     \<and> Check_best_tour_rd n mat cty t best =
           Some (cost best, cost t + mat ! (nat cty * n) < cost best)
     \<and> (\<forall>best2. length (cities best2) = n + 1 \<longrightarrow>
           Check_best_tour_wr n mat cty t best2 =
             Some (if cost t + mat ! (nat cty * n) < cost best2
                   then \<lparr>cities = take n (cities t) @ [0], count = n + 1,
                          cost = cost t + mat ! (nat cty * n)\<rparr>
                   else best2))"
proof -
  have n: "n \<le> length (cities t)" using assms(1) by (simp add: submission_ok_def)
  have c: "closing_cost n mat (cty, t) = cost t + mat ! (nat cty * n)"
    using assms(4) by (simp add: closing_cost_def add_int_exact)
  show ?thesis
  proof (cases "cost t + mat ! (nat cty * n) < cost best")
    case True
    then have "\<lparr>cities = take n (cities t) @ [0], count = n + 1,
                 cost = cost t + mat ! (nat cty * n)\<rparr> \<noteq> best"
      by (cases best) auto
    then show ?thesis
      using True n assms(1,2,3)
      by (simp add: Check_best_tour_eq Check_best_tour_rd_eq Check_best_tour_wr_eq c nth_append)
  next
    case False
    then show ?thesis
      using assms(1,2,3)
      by (simp add: Check_best_tour_eq Check_best_tour_rd_eq Check_best_tour_wr_eq c)
  qed
qed

theorem Check_best_tour_commits_iff_better_witness:
  "submission_ok 4 (2, \<lparr>cities = [0, 1, 3, 2], count = 4, cost = 5\<rparr>)
   \<and> length (cities \<lparr>cities = replicate 5 NO_CITY, count = 0, cost = INFINITY\<rparr>) = 4 + 1
   \<and> length example_mat = 4 * 4
   \<and> in_int (cost \<lparr>cities = [0, 1, 3, 2], count = 4, cost = 5\<rparr> + example_mat ! (nat 2 * 4))
   \<and> Check_best_tour 4 example_mat 2 \<lparr>cities = [0, 1, 3, 2], count = 4, cost = 5\<rparr>
        \<lparr>cities = replicate 5 NO_CITY, count = 0, cost = INFINITY\<rparr>
      = Some (\<lparr>cities = [0, 1, 3, 2, 0], count = 5, cost = 8\<rparr>, INFINITY)"
proof -
  have h: "submission_ok 4 (2, \<lparr>cities = [0, 1, 3, 2], count = 4, cost = 5\<rparr>)"
    "length (cities \<lparr>cities = replicate 5 NO_CITY, count = 0, cost = INFINITY\<rparr>) = 4 + 1"
    "length example_mat = 4 * 4"
    "in_int (cost \<lparr>cities = [0, 1, 3, 2], count = 4, cost = 5\<rparr> + example_mat ! (nat 2 * 4))"
    by (simp_all add: submission_ok_def example_mat_def in_int_def)
  have m: "example_mat ! 8 = 3"
    by (simp add: example_mat_def)
  from Check_best_tour_commits_iff_better[OF h] obtain best' where
    "Check_best_tour 4 example_mat 2 \<lparr>cities = [0, 1, 3, 2], count = 4, cost = 5\<rparr>
        \<lparr>cities = replicate 5 NO_CITY, count = 0, cost = INFINITY\<rparr> = Some (best', INFINITY)"
    "cities best' = [0, 1, 3, 2, 0]" "count best' = 5" "cost best' = 8"
    by (auto simp: m INFINITY_def)
  then show ?thesis using h by (cases best') simp
qed

text \<open>
  The sum has to fit. With two cities, a tour \<open>0, 1\<close> of cost 2147483647 and a closing
  edge of cost 3, the sum 2147483650 is not below the champion's cost 1000000, and
  \<open>Check_best_tour\<close> replaces the champion all the same, by a tour of cost -2147483646.
\<close>

theorem Check_best_tour_commits_wrapped_sum:
  "submission_ok 2 (1, \<lparr>cities = [0, 1, NO_CITY], count = 2, cost = 2147483647\<rparr>)
   \<and> cost \<lparr>cities = [0, 1, NO_CITY], count = 2, cost = 2147483647\<rparr>
       + [0, 2147483647, 3, 0] ! (nat 1 * 2) = 2147483650
   \<and> \<not> 2147483650 < cost \<lparr>cities = [NO_CITY, NO_CITY, NO_CITY], count = 0, cost = 1000000\<rparr>
   \<and> Check_best_tour 2 [0, 2147483647, 3, 0] 1
        \<lparr>cities = [0, 1, NO_CITY], count = 2, cost = 2147483647\<rparr>
        \<lparr>cities = [NO_CITY, NO_CITY, NO_CITY], count = 0, cost = 1000000\<rparr>
      = Some (\<lparr>cities = [0, 1, 0], count = 3, cost = - 2147483646\<rparr>, 1000000)"
proof -
  have s: "submission_ok 2 (1, \<lparr>cities = [0, 1, NO_CITY], count = 2, cost = 2147483647\<rparr>)"
    by (simp add: submission_ok_def)
  have c: "closing_cost 2 [0, 2147483647, 3, 0]
      (1, \<lparr>cities = [0, 1, NO_CITY], count = 2, cost = 2147483647\<rparr>) = - 2147483646"
    by (simp add: closing_cost_def add_int_def wrap_int_def)
  have "Check_best_tour 2 [0, 2147483647, 3, 0] 1
        \<lparr>cities = [0, 1, NO_CITY], count = 2, cost = 2147483647\<rparr>
        \<lparr>cities = [NO_CITY, NO_CITY, NO_CITY], count = 0, cost = 1000000\<rparr>
      = Some (\<lparr>cities = [0, 1, 0], count = 3, cost = - 2147483646\<rparr>, 1000000)"
    using s by (simp add: Check_best_tour_eq c)
  then show ?thesis using s by simp
qed

lemma Check_all_fold:
  assumes "\<forall>s\<in>set subs. submission_ok n s" "length (cities best) = n + 1" "length mat = n * n"
  shows "\<exists>best'. Check_all n mat subs best = Some best' \<and> length (cities best') = n + 1
     \<and> cost best' = fold min (map (closing_cost n mat) subs) (cost best)"
  using assms
proof (induction subs arbitrary: best)
  case Nil
  then show ?case by simp
next
  case (Cons s subs)
  obtain cty t where s: "s = (cty, t)" by (cases s)
  have ok: "submission_ok n (cty, t)" using Cons.prems(1) s by simp
  define b where "b = (if closing_cost n mat (cty, t) < cost best
           then \<lparr>cities = take n (cities t) @ [0], count = n + 1, cost = closing_cost n mat (cty, t)\<rparr>
           else best)"
  have step: "Check_best_tour n mat cty t best = Some (b, cost best)"
    unfolding b_def using ok Cons.prems(2,3) by (rule Check_best_tour_eq)
  have len: "length (cities b) = n + 1"
    using ok Cons.prems(2) by (simp add: b_def submission_ok_def)
  have cb: "cost b = min (closing_cost n mat (cty, t)) (cost best)"
    by (simp add: b_def min_def)
  from Cons.IH[OF _ len Cons.prems(3)] Cons.prems(1)
  obtain best' where "Check_all n mat subs b = Some best'" "length (cities best') = n + 1"
    "cost best' = fold min (map (closing_cost n mat) subs) (cost b)"
    by auto
  then show ?case
    using step by (simp add: s cb)
qed

lemma Check_all_Min:
  assumes "\<forall>s\<in>set subs. submission_ok n s" "length (cities best) = n + 1" "length mat = n * n"
  shows "\<exists>best'. Check_all n mat subs best = Some best' \<and> length (cities best') = n + 1
     \<and> cost best' = Min (set (cost best # map (closing_cost n mat) subs))"
  using Check_all_fold[OF assms] by (simp only: Min.set_eq_fold)

lemma Check_all_append:
  "Check_all n mat (xs @ ys) best = Check_all n mat xs best \<bind> Check_all n mat ys"
proof (induction xs arbitrary: best)
  case Nil
  then show ?case by simp
next
  case (Cons s xs)
  obtain cty t where s: "s = (cty, t)" by (cases s)
  show ?case
    by (cases "Check_best_tour n mat cty t best") (auto simp: s Cons.IH)
qed

text \<open>
  Claim C8. A finite sequence of well-formed submissions, each with a closing cost (the
  tour's cost plus the closing edge) that an \<open>int\<close> can hold, applied one after another to
  any champion, leaves the champion's cost at the minimum of its initial cost and the
  closing costs of the submitted tours. The same submissions in any other order give
  the same final cost; after every prefix the cost is between the final and the initial
  one, so it never increases; and a submission whose closing cost is not below the
  cost of the champion it meets changes nothing.
\<close>

theorem Check_all_minimum:
  assumes "\<forall>s\<in>set subs. submission_ok n s" "length (cities best) = n + 1" "length mat = n * n"
    "\<forall>s\<in>set subs. in_int (closing_sum n mat s)"
  shows "\<exists>best'. Check_all n mat subs best = Some best'
     \<and> cost best' = Min (set (cost best # map (closing_sum n mat) subs))
     \<and> (\<forall>subs'. mset subs' = mset subs \<longrightarrow>
           (\<exists>b. Check_all n mat subs' best = Some b \<and> cost b = cost best'))
     \<and> (\<forall>xs ys. subs = xs @ ys \<longrightarrow>
           (\<exists>b. Check_all n mat xs best = Some b \<and> cost best' \<le> cost b \<and> cost b \<le> cost best))
     \<and> (\<forall>s\<in>set subs. \<forall>b. length (cities b) = n + 1 \<and> cost b \<le> closing_sum n mat s \<longrightarrow>
           Check_best_tour n mat (fst s) (snd s) b = Some (b, cost b))"
proof -
  have cs: "closing_cost n mat s = closing_sum n mat s" if "s \<in> set subs" for s
    using assms(4) that by (simp add: closing_cost_def closing_sum_def add_int_exact)
  then have m: "map (closing_cost n mat) subs = map (closing_sum n mat) subs" by simp
  from Check_all_Min[OF assms(1,2,3)] obtain best' where
    b: "Check_all n mat subs best = Some best'" "length (cities best') = n + 1"
       "cost best' = Min (set (cost best # map (closing_cost n mat) subs))"
    by blast
  have perm: "\<exists>b. Check_all n mat subs' best = Some b \<and> cost b = cost best'"
    if "mset subs' = mset subs" for subs'
  proof -
    have eq: "set subs' = set subs" using that by (rule mset_eq_setD)
    then have "\<forall>s\<in>set subs'. submission_ok n s" using assms(1) by simp
    from Check_all_Min[OF this assms(2,3)] show ?thesis
      using b(3) eq by auto
  qed
  have pre: "\<exists>b. Check_all n mat xs best = Some b \<and> cost best' \<le> cost b \<and> cost b \<le> cost best"
    if "subs = xs @ ys" for xs ys
  proof -
    have "\<forall>s\<in>set xs. submission_ok n s" using assms(1) that by simp
    from Check_all_Min[OF this assms(2,3)] obtain b1 where
      b1: "Check_all n mat xs best = Some b1" "length (cities b1) = n + 1"
          "cost b1 = Min (set (cost best # map (closing_cost n mat) xs))"
      by blast
    have "\<forall>s\<in>set ys. submission_ok n s" using assms(1) that by simp
    from Check_all_Min[OF this b1(2) assms(3)] obtain b2 where
      b2: "Check_all n mat ys b1 = Some b2"
          "cost b2 = Min (set (cost b1 # map (closing_cost n mat) ys))"
      by blast
    have "b2 = best'" using b(1) b1(1) b2(1) that by (simp add: Check_all_append)
    then have "cost best' \<le> cost b1" using b2(2) by simp
    moreover have "cost b1 \<le> cost best" using b1(3) by simp
    ultimately show ?thesis using b1(1) by blast
  qed
  have same: "Check_best_tour n mat (fst s) (snd s) b = Some (b, cost b)"
    if "s \<in> set subs" "length (cities b) = n + 1 \<and> cost b \<le> closing_sum n mat s" for s b
  proof -
    have "submission_ok n (fst s, snd s)" using assms(1) that(1) by simp
    from Check_best_tour_eq[OF this _ assms(3), of b] show ?thesis
      using that(2) cs[OF that(1)] by simp
  qed
  have b3: "cost best' = Min (set (cost best # map (closing_sum n mat) subs))"
    using b(3) by (simp only: m)
  show ?thesis
    using b(1) b3 perm pre same by blast
qed

theorem Check_all_minimum_witness:
  "submission_ok 4 (2, \<lparr>cities = [0, 1, 3, 2], count = 4, cost = 5\<rparr>)
   \<and> submission_ok 4 (3, \<lparr>cities = [0, 1, 2, 3], count = 4, cost = 6\<rparr>)
   \<and> length (cities \<lparr>cities = replicate 5 NO_CITY, count = 0, cost = INFINITY\<rparr>) = 4 + 1
   \<and> length example_mat = 4 * 4
   \<and> in_int (closing_sum 4 example_mat (2, \<lparr>cities = [0, 1, 3, 2], count = 4, cost = 5\<rparr>))
   \<and> in_int (closing_sum 4 example_mat (3, \<lparr>cities = [0, 1, 2, 3], count = 4, cost = 6\<rparr>))
   \<and> (\<exists>best'. Check_all 4 example_mat
          [(2, \<lparr>cities = [0, 1, 3, 2], count = 4, cost = 5\<rparr>),
           (3, \<lparr>cities = [0, 1, 2, 3], count = 4, cost = 6\<rparr>)]
          \<lparr>cities = replicate 5 NO_CITY, count = 0, cost = INFINITY\<rparr> = Some best'
        \<and> cost best' = 7)"
proof -
  have h1: "submission_ok 4 (2, \<lparr>cities = [0, 1, 3, 2], count = 4, cost = 5\<rparr>)"
    and h2: "submission_ok 4 (3, \<lparr>cities = [0, 1, 2, 3], count = 4, cost = 6\<rparr>)"
    and h3: "length (cities \<lparr>cities = replicate 5 NO_CITY, count = 0, cost = INFINITY\<rparr>) = 4 + 1"
    and h4: "length example_mat = 4 * 4"
    by (simp_all add: submission_ok_def example_mat_def)
  have h: "\<forall>s\<in>set [(2, \<lparr>cities = [0, 1, 3, 2], count = 4, cost = 5\<rparr>),
           (3, \<lparr>cities = [0, 1, 2, 3], count = 4, cost = 6\<rparr>)]. submission_ok 4 s"
    using h1 h2 by simp
  have m: "closing_sum 4 example_mat (2, \<lparr>cities = [0, 1, 3, 2], count = 4, cost = 5\<rparr>) = 8"
    "closing_sum 4 example_mat (3, \<lparr>cities = [0, 1, 2, 3], count = 4, cost = 6\<rparr>) = 7"
    by (simp_all add: closing_sum_def example_mat_def)
  have r: "\<forall>s\<in>set [(2, \<lparr>cities = [0, 1, 3, 2], count = 4, cost = 5\<rparr>),
           (3, \<lparr>cities = [0, 1, 2, 3], count = 4, cost = 6\<rparr>)]. in_int (closing_sum 4 example_mat s)"
    by (simp add: m in_int_def)
  from Check_all_minimum[OF h h3 h4 r] show ?thesis
    using h1 h2 h3 h4 by (auto simp: m INFINITY_def in_int_def)
qed

text \<open>
  The closing costs have to fit. The single submission of the tour \<open>0, 1\<close> of cost
  2147483647 with a closing edge of cost 3 has the closing cost 2147483650, above the
  champion's 1000000; it leaves the champion at cost -2147483646, which is not the minimum
  of the two and is a change.
\<close>

theorem Check_all_wrapped_sum:
  "submission_ok 2 (1, \<lparr>cities = [0, 1, NO_CITY], count = 2, cost = 2147483647\<rparr>)
   \<and> closing_sum 2 [0, 2147483647, 3, 0]
        (1, \<lparr>cities = [0, 1, NO_CITY], count = 2, cost = 2147483647\<rparr>) = 2147483650
   \<and> Min (set (cost \<lparr>cities = [NO_CITY, NO_CITY, NO_CITY], count = 0, cost = 1000000\<rparr>
        # map (closing_sum 2 [0, 2147483647, 3, 0])
            [(1, \<lparr>cities = [0, 1, NO_CITY], count = 2, cost = 2147483647\<rparr>)])) = 1000000
   \<and> Check_all 2 [0, 2147483647, 3, 0]
        [(1, \<lparr>cities = [0, 1, NO_CITY], count = 2, cost = 2147483647\<rparr>)]
        \<lparr>cities = [NO_CITY, NO_CITY, NO_CITY], count = 0, cost = 1000000\<rparr>
      = Some \<lparr>cities = [0, 1, 0], count = 3, cost = - 2147483646\<rparr>"
proof -
  have s: "submission_ok 2 (1, \<lparr>cities = [0, 1, NO_CITY], count = 2, cost = 2147483647\<rparr>)"
    by (simp add: submission_ok_def)
  have c: "closing_cost 2 [0, 2147483647, 3, 0]
      (1, \<lparr>cities = [0, 1, NO_CITY], count = 2, cost = 2147483647\<rparr>) = - 2147483646"
    by (simp add: closing_cost_def add_int_def wrap_int_def)
  have d: "closing_sum 2 [0, 2147483647, 3, 0]
        (1, \<lparr>cities = [0, 1, NO_CITY], count = 2, cost = 2147483647\<rparr>) = 2147483650"
    by (simp add: closing_sum_def)
  have "Check_all 2 [0, 2147483647, 3, 0]
        [(1, \<lparr>cities = [0, 1, NO_CITY], count = 2, cost = 2147483647\<rparr>)]
        \<lparr>cities = [NO_CITY, NO_CITY, NO_CITY], count = 0, cost = 1000000\<rparr>
      = Some \<lparr>cities = [0, 1, 0], count = 3, cost = - 2147483646\<rparr>"
    using s by (simp add: Check_best_tour_eq c)
  then show ?thesis using s d by simp
qed

subsection \<open>One round of the loop of Search\<close>

lemma Visited_loop_eq:
  "count t \<le> length (cities t) \<Longrightarrow> i \<le> count t \<Longrightarrow>
   Visited_loop nbr t i = Some (nbr \<in> set (drop i (take (count t) (cities t))))"
proof (induction nbr t i rule: Visited_loop.induct)
  case (1 nbr t i)
  show ?case
  proof (cases "i < count t")
    case True
    have d: "drop i (take (count t) (cities t))
        = cities t ! i # drop (i + 1) (take (count t) (cities t))"
      using True 1(2) by (simp add: Cons_nth_drop_Suc[symmetric])
    show ?thesis
    proof (cases "cities t ! i = nbr")
      case True
      then show ?thesis
        using \<open>i < count t\<close> 1(2) by (subst Visited_loop.simps) (simp add: d)
    next
      case False
      have "Visited_loop nbr t i = Visited_loop nbr t (i + 1)"
        using False \<open>i < count t\<close> 1(2) by (subst Visited_loop.simps) simp
      also have "\<dots> = Some (nbr \<in> set (drop (i + 1) (take (count t) (cities t))))"
        using False \<open>i < count t\<close> 1(2) by (intro 1(1)) simp_all
      finally show ?thesis using False by (simp only: d) auto
    qed
  next
    case False
    then show ?thesis using 1(3) by (subst Visited_loop.simps) simp
  qed
qed

lemma Visited_eq:
  "count t \<le> length (cities t) \<Longrightarrow>
   Visited nbr t = Some (nbr \<in> set (take (count t) (cities t)))"
  by (simp add: Visited_def Visited_loop_eq)

lemma Dup_tour_eq:
  "n \<le> length (cities t) \<Longrightarrow>
   Dup_tour n t = Some \<lparr>cities = take n (cities t), count = count t, cost = cost t\<rparr>"
  by (simp add: Dup_tour_def copy_loop_0 malloc_cities_def)

lemma mat_index:
  assumes "0 \<le> cty" "nat cty < n" "m < n" "length mat = n * n"
  shows "rd mat (int n * cty + int m) = Some (mat ! (n * nat cty + m))"
proof -
  have "n * nat cty + m < n * nat cty + n" using assms(3) by simp
  also have "\<dots> = n * (nat cty + 1)" by simp
  also have "\<dots> \<le> n * n" using assms(2) by (intro mult_le_mono2) simp
  finally have "n * nat cty + m < length mat" using assms(4) by simp
  moreover have "int n * cty + int m = int (n * nat cty + m)" using assms(1) by simp
  ultimately show ?thesis by (simp only: rd_Some)
qed

lemma Feasible_eq:
  assumes "count t \<le> length (cities t)" "0 \<le> cty" "nat cty < n" "m < n" "length mat = n * n"
  shows "Feasible n mat cty (int m) t l =
     Some (int m \<notin> set (take (count t) (cities t))
           \<and> add_int (cost t) (mat ! (n * nat cty + m)) < l)"
  using assms by (simp add: Feasible_def Visited_eq mat_index)

lemma Expand_loop_eq:
  assumes "n \<le> length (cities t)" "count t \<le> length (cities t)" "0 \<le> cty" "nat cty < n"
    "m < n" "length mat = n * n"
  shows "Expand_loop n mat cty t m loc =
     Some (loc\<lparr>stack_p :=
                 fold (\<lambda>nbr st. child n mat cty t nbr # st)
                   (filter (feasible_nbr n mat cty t (l_best_tour loc)) (rev [1..<Suc m]))
                   (stack_p loc),
               my_count := my_count loc +
                 length (filter (feasible_nbr n mat cty t (l_best_tour loc)) (rev [1..<Suc m]))\<rparr>)"
  using assms(5)
proof (induction m arbitrary: loc)
  case 0
  then show ?case by simp
next
  case (Suc m)
  have m: "m < n" "Suc m < n" using Suc.prems by simp_all
  have r: "rev [1..<Suc (Suc m)] = Suc m # rev [1..<Suc m]" by simp
  have f: "Feasible n mat cty (int (Suc m)) t (l_best_tour loc) =
      Some (feasible_nbr n mat cty t (l_best_tour loc) (Suc m))"
    unfolding feasible_nbr_def using assms(2,3,4) m(2) assms(6) by (rule Feasible_eq)
  have i: "rd mat (int n * cty + int (Suc m)) = Some (mat ! (n * nat cty + Suc m))"
    using assms(3,4) m(2) assms(6) by (rule mat_index)
  show ?case
  proof (cases "feasible_nbr n mat cty t (l_best_tour loc) (Suc m)")
    case True
    show ?thesis
      unfolding r using True
      by (simp add: f i Push_def Dup_tour_eq[OF assms(1)] Suc.IH[OF m(1)] child_def
          del: upt_Suc of_nat_Suc)
  next
    case False
    show ?thesis
      unfolding r using False
      by (simp add: f Suc.IH[OF m(1)] del: upt_Suc of_nat_Suc)
  qed
qed

lemma fold_push: "fold (\<lambda>x st. f x # st) xs st = rev (map f xs) @ st"
  by (induction xs arbitrary: st) simp_all

lemma Extend_eq:
  assumes "stack_p loc = e # rest" "count (tour_p e) < length (cities (tour_p e))"
  shows "Extend loc = Some (extended e, city e, loc\<lparr>stack_p := rest, my_count := my_count loc - 1\<rparr>)"
  using assms by (simp add: Extend_def Pop_def extended_def)

lemma Search_body_expand:
  assumes "stack_p loc = e # rest" "count (tour_p e) < length (cities (tour_p e))"
    "n \<le> length (cities (tour_p e))" "count (extended e) \<noteq> n"
    "0 \<le> city e" "nat (city e) < n" "length mat = n * n"
  shows "Search_body n mat best loc =
     Some (best,
       loc\<lparr>stack_p :=
             fold (\<lambda>nbr st. child n mat (city e) (extended e) nbr # st)
               (filter (feasible_nbr n mat (city e) (extended e) (l_best_tour loc)) (rev [1..<n]))
               rest,
           my_count := my_count loc - 1 +
             length (filter (feasible_nbr n mat (city e) (extended e) (l_best_tour loc))
                       (rev [1..<n]))\<rparr>)"
proof -
  have n: "n - 1 < n" "Suc (n - 1) = n" using assms(6) by simp_all
  have a: "n \<le> length (cities (extended e))" using assms(3) by (simp add: extended_def)
  have b: "count (extended e) \<le> length (cities (extended e))"
    using assms(2) by (simp add: extended_def)
  define loc1 where "loc1 = loc\<lparr>stack_p := rest, my_count := my_count loc - 1\<rparr>"
  have "Expand n mat (city e) (extended e) loc1 =
     Some (loc1\<lparr>stack_p :=
                 fold (\<lambda>nbr st. child n mat (city e) (extended e) nbr # st)
                   (filter (feasible_nbr n mat (city e) (extended e) (l_best_tour loc1)) (rev [1..<n]))
                   (stack_p loc1),
               my_count := my_count loc1 +
                 length (filter (feasible_nbr n mat (city e) (extended e) (l_best_tour loc1))
                   (rev [1..<n]))\<rparr>)"
    unfolding Expand_def
    using Expand_loop_eq[OF a b assms(5,6) n(1) assms(7), of loc1] by (simp only: n(2))
  then have "Expand n mat (city e) (extended e) loc1 =
     Some (loc\<lparr>stack_p :=
             fold (\<lambda>nbr st. child n mat (city e) (extended e) nbr # st)
               (filter (feasible_nbr n mat (city e) (extended e) (l_best_tour loc)) (rev [1..<n]))
               rest,
           my_count := my_count loc - 1 +
             length (filter (feasible_nbr n mat (city e) (extended e) (l_best_tour loc))
                       (rev [1..<n]))\<rparr>)"
    by (simp add: loc1_def)
  then show ?thesis
    using assms(4)
    by (simp add: Search_body_def Extend_eq[OF assms(1,2)] loc1_def)
qed

lemma Search_body_check:
  assumes "stack_p loc = e # rest" "count (tour_p e) < length (cities (tour_p e))"
    "count (extended e) = n"
    "0 \<le> city e" "nat (city e) < n" "length mat = n * n" "length (cities best) = n + 1"
  shows "Search_body n mat best loc =
     Some (if closing_cost n mat (city e, extended e) < cost best
           then \<lparr>cities = take n (cities (extended e)) @ [0], count = n + 1,
                  cost = closing_cost n mat (city e, extended e)\<rparr>
           else best,
       loc\<lparr>stack_p := rest, my_count := my_count loc - 1, l_best_tour := cost best\<rparr>)"
proof -
  have "submission_ok n (city e, extended e)"
    using assms(2,3,4,5) by (auto simp add: submission_ok_def extended_def)
  from Check_best_tour_eq[OF this assms(7,6)] show ?thesis
    using assms(3) by (simp add: Search_body_def Extend_eq[OF assms(1,2)])
qed

text \<open>
  Claim C5. One round of the worker loop pops a node and extends its tour. Let the cost
  of the extended tour, and its sum with \<open>mat[city][nbr]\<close> for each neighbour not yet
  visited, be sums an \<open>int\<close> can hold. When the extended tour has fewer than \<open>n\<close>
  cities, the neighbours \<open>n - 1, ..., 1\<close> are examined in this descending order, and a
  neighbour is pushed if and only if it is not among the visited cities and the tour's
  cost plus \<open>mat[city][nbr]\<close> is strictly below the worker's cached bound
  \<open>l_best_tour\<close>; the bound and the champion are not touched. The bound is refreshed, to
  the champion's cost, in the other case, when the extended tour has \<open>n\<close> cities and is
  handed to \<open>Check_best_tour\<close>.
\<close>

theorem Search_body_neighbours:
  assumes "stack_p loc = e # rest" "count (tour_p e) < length (cities (tour_p e))"
    "n \<le> length (cities (tour_p e))" "0 \<le> city e" "nat (city e) < n"
    "length mat = n * n" "length (cities best) = n + 1"
    "in_int (cost (tour_p e) + elt_cost e)"
    "\<forall>nbr\<in>set [1..<n]. int nbr \<notin> set (visited (extended e)) \<longrightarrow>
        in_int (cost (tour_p e) + elt_cost e + mat ! (n * nat (city e) + nbr))"
  shows "cost (extended e) = cost (tour_p e) + elt_cost e
    \<and> (\<forall>nbr\<in>set [1..<n]. \<forall>l. feasible_nbr n mat (city e) (extended e) l nbr \<longleftrightarrow>
          int nbr \<notin> set (visited (extended e))
          \<and> cost (tour_p e) + elt_cost e + mat ! (n * nat (city e) + nbr) < l)
    \<and> (count (extended e) < n \<longrightarrow>
      (\<exists>loc'. Search_body n mat best loc = Some (best, loc')
         \<and> stack_p loc' =
             fold (\<lambda>nbr st. child n mat (city e) (extended e) nbr # st)
               (filter (feasible_nbr n mat (city e) (extended e) (l_best_tour loc)) (rev [1..<n]))
               rest
         \<and> stack_p loc' =
             map (child n mat (city e) (extended e))
               (filter (feasible_nbr n mat (city e) (extended e) (l_best_tour loc)) [1..<n])
             @ rest
         \<and> my_count loc' = my_count loc - 1 +
               length (filter (feasible_nbr n mat (city e) (extended e) (l_best_tour loc)) [1..<n])
         \<and> l_best_tour loc' = l_best_tour loc))
    \<and> (count (extended e) = n \<longrightarrow>
      (\<exists>best' loc'. Search_body n mat best loc = Some (best', loc')
         \<and> stack_p loc' = rest \<and> l_best_tour loc' = cost best))"
proof (intro conjI impI ballI allI)
  show x: "cost (extended e) = cost (tour_p e) + elt_cost e"
    using assms(8) by (simp add: extended_def add_int_exact)
  fix nbr l assume nbr: "nbr \<in> set [1..<n]"
  show "feasible_nbr n mat (city e) (extended e) l nbr \<longleftrightarrow>
          int nbr \<notin> set (visited (extended e))
          \<and> cost (tour_p e) + elt_cost e + mat ! (n * nat (city e) + nbr) < l"
  proof (cases "int nbr \<in> set (visited (extended e))")
    case True
    then show ?thesis by (simp add: feasible_nbr_def visited_def)
  next
    case False
    then have "in_int (cost (extended e) + mat ! (n * nat (city e) + nbr))"
      using assms(9) x nbr by simp
    then show ?thesis using x by (simp add: feasible_nbr_def visited_def add_int_exact)
  qed
next
  assume "count (extended e) < n"
  then have ne: "count (extended e) \<noteq> n" by simp
  show "\<exists>loc'. Search_body n mat best loc = Some (best, loc')
         \<and> stack_p loc' =
             fold (\<lambda>nbr st. child n mat (city e) (extended e) nbr # st)
               (filter (feasible_nbr n mat (city e) (extended e) (l_best_tour loc)) (rev [1..<n]))
               rest
         \<and> stack_p loc' =
             map (child n mat (city e) (extended e))
               (filter (feasible_nbr n mat (city e) (extended e) (l_best_tour loc)) [1..<n])
             @ rest
         \<and> my_count loc' = my_count loc - 1 +
               length (filter (feasible_nbr n mat (city e) (extended e) (l_best_tour loc)) [1..<n])
         \<and> l_best_tour loc' = l_best_tour loc"
    using Search_body_expand[OF assms(1,2,3) ne assms(4,5,6), of best]
    by (simp add: fold_push rev_map[symmetric] rev_filter[symmetric])
next
  assume "count (extended e) = n"
  from Search_body_check[OF assms(1,2) this assms(4,5,6,7)]
  show "\<exists>best' loc'. Search_body n mat best loc = Some (best', loc')
         \<and> stack_p loc' = rest \<and> l_best_tour loc' = cost best"
    by simp
qed

theorem Search_body_neighbours_witness:
  "stack_p \<lparr>stack_p = [\<lparr>tour_p = \<lparr>cities = [0, NO_CITY, NO_CITY, NO_CITY, NO_CITY], count = 1, cost = 0\<rparr>,
                           city = 1, elt_cost = 1\<rparr>], my_count = 1, l_best_tour = INFINITY\<rparr>
     = \<lparr>tour_p = \<lparr>cities = [0, NO_CITY, NO_CITY, NO_CITY, NO_CITY], count = 1, cost = 0\<rparr>,
         city = 1, elt_cost = 1\<rparr> # []
   \<and> length example_mat = 4 * 4
   \<and> in_int (cost (tour_p \<lparr>tour_p = \<lparr>cities = [0, NO_CITY, NO_CITY, NO_CITY, NO_CITY], count = 1, cost = 0\<rparr>,
         city = 1, elt_cost = 1\<rparr>)
        + elt_cost \<lparr>tour_p = \<lparr>cities = [0, NO_CITY, NO_CITY, NO_CITY, NO_CITY], count = 1, cost = 0\<rparr>,
         city = 1, elt_cost = 1\<rparr>)
   \<and> list_all (\<lambda>nbr. in_int (cost (tour_p \<lparr>tour_p = \<lparr>cities = [0, NO_CITY, NO_CITY, NO_CITY, NO_CITY], count = 1, cost = 0\<rparr>,
         city = 1, elt_cost = 1\<rparr>)
        + elt_cost \<lparr>tour_p = \<lparr>cities = [0, NO_CITY, NO_CITY, NO_CITY, NO_CITY], count = 1, cost = 0\<rparr>,
         city = 1, elt_cost = 1\<rparr>
        + example_mat ! (4 * nat (city \<lparr>tour_p = \<lparr>cities = [0, NO_CITY, NO_CITY, NO_CITY, NO_CITY], count = 1, cost = 0\<rparr>,
         city = 1, elt_cost = 1\<rparr>) + nbr))) [1..<4]
   \<and> Search_body 4 example_mat \<lparr>cities = replicate 5 NO_CITY, count = 0, cost = INFINITY\<rparr>
        \<lparr>stack_p = [\<lparr>tour_p = \<lparr>cities = [0, NO_CITY, NO_CITY, NO_CITY, NO_CITY], count = 1, cost = 0\<rparr>,
                           city = 1, elt_cost = 1\<rparr>], my_count = 1, l_best_tour = INFINITY\<rparr>
      = Some (\<lparr>cities = replicate 5 NO_CITY, count = 0, cost = INFINITY\<rparr>,
          \<lparr>stack_p = [\<lparr>tour_p = \<lparr>cities = [0, 1, NO_CITY, NO_CITY], count = 2, cost = 1\<rparr>,
                        city = 2, elt_cost = 3\<rparr>,
                      \<lparr>tour_p = \<lparr>cities = [0, 1, NO_CITY, NO_CITY], count = 2, cost = 1\<rparr>,
                        city = 3, elt_cost = 1\<rparr>],
            my_count = 2, l_best_tour = INFINITY\<rparr>)"
proof -
  define e where "e = \<lparr>tour_p = \<lparr>cities = [0, NO_CITY, NO_CITY, NO_CITY, NO_CITY], count = 1, cost = 0\<rparr>,
                           city = 1, elt_cost = 1\<rparr>"
  define loc where "loc = \<lparr>stack_p = [e], my_count = 1, l_best_tour = INFINITY\<rparr>"
  define best where "best = \<lparr>cities = replicate 5 NO_CITY, count = 0, cost = INFINITY\<rparr>"
  have h: "stack_p loc = e # []" "count (tour_p e) < length (cities (tour_p e))"
    "4 \<le> length (cities (tour_p e))" "0 \<le> city e" "nat (city e) < 4"
    "length example_mat = 4 * 4" "length (cities best) = 4 + 1"
    "in_int (cost (tour_p e) + elt_cost e)"
    by (simp_all add: loc_def e_def best_def example_mat_def in_int_def)
  have r: "list_all (\<lambda>nbr. in_int (cost (tour_p e) + elt_cost e
      + example_mat ! (4 * nat (city e) + nbr))) [1..<4]"
    by (simp add: e_def example_mat_def in_int_def upt_conv_Cons)
  then have h9: "\<forall>nbr\<in>set [1..<4]. int nbr \<notin> set (visited (extended e)) \<longrightarrow>
      in_int (cost (tour_p e) + elt_cost e + example_mat ! (4 * nat (city e) + nbr))"
    by (simp only: list_all_iff) simp
  have x: "extended e = \<lparr>cities = [0, 1, NO_CITY, NO_CITY, NO_CITY], count = 2, cost = 1\<rparr>"
    by (simp add: extended_def e_def add_int_def wrap_int_def)
  have ce: "city e = 1" by (simp add: e_def)
  have f: "filter (feasible_nbr 4 example_mat (city e) (extended e) (l_best_tour loc)) [1..<4] = [2, 3]"
    by (simp add: x ce feasible_nbr_def loc_def example_mat_def INFINITY_def NO_CITY_def
        upt_conv_Cons add_int_def wrap_int_def)
  have c: "map (child 4 example_mat (city e) (extended e)) [2, 3] =
      [\<lparr>tour_p = \<lparr>cities = [0, 1, NO_CITY, NO_CITY], count = 2, cost = 1\<rparr>, city = 2, elt_cost = 3\<rparr>,
       \<lparr>tour_p = \<lparr>cities = [0, 1, NO_CITY, NO_CITY], count = 2, cost = 1\<rparr>, city = 3, elt_cost = 1\<rparr>]"
    by (simp add: x ce child_def example_mat_def)
  have lt: "count (extended e) < 4" by (simp add: x)
  note t = Search_body_neighbours[OF h h9, THEN conjunct2, THEN conjunct2, THEN conjunct1,
      THEN mp, OF lt]
  from t obtain loc' where l:
    "Search_body 4 example_mat best loc = Some (best, loc')"
    "stack_p loc' = map (child 4 example_mat (city e) (extended e))
       (filter (feasible_nbr 4 example_mat (city e) (extended e) (l_best_tour loc)) [1..<4]) @ []"
    "my_count loc' = my_count loc - 1 +
       length (filter (feasible_nbr 4 example_mat (city e) (extended e) (l_best_tour loc)) [1..<4])"
    "l_best_tour loc' = l_best_tour loc"
    by blast
  have "stack_p loc' = map (child 4 example_mat (city e) (extended e)) [2, 3]"
    "my_count loc' = 2" "l_best_tour loc' = INFINITY"
    using l(2,3,4) unfolding f by (simp_all add: loc_def)
  with l(1) have "Search_body 4 example_mat best loc = Some (best,
     \<lparr>stack_p = map (child 4 example_mat (city e) (extended e)) [2, 3],
      my_count = 2, l_best_tour = INFINITY\<rparr>)"
    by (cases loc') simp
  then show ?thesis
    using h(6,8) r unfolding c by (simp add: loc_def e_def best_def)
qed

text \<open>
  The sums have to fit. With three cities and the node for the first move to city 1, of
  cost 2147483647, the round extends the tour to \<open>0, 1\<close> and pushes the node for city 2,
  although the tour's cost plus \<open>mat[1][2] = 1\<close> is 2147483648, above the bound 1000000.
\<close>

theorem Search_body_pushes_on_wrapped_sum:
  "Search_body 3 [0, 2147483647, 1,  1, 0, 1,  1, 1, 0]
      \<lparr>cities = [NO_CITY, NO_CITY, NO_CITY, NO_CITY], count = 0, cost = 1000000\<rparr>
      \<lparr>stack_p = [\<lparr>tour_p = \<lparr>cities = [0, NO_CITY, NO_CITY, NO_CITY], count = 1, cost = 0\<rparr>,
                    city = 1, elt_cost = 2147483647\<rparr>],
        my_count = 1, l_best_tour = 1000000\<rparr>
    = Some (\<lparr>cities = [NO_CITY, NO_CITY, NO_CITY, NO_CITY], count = 0, cost = 1000000\<rparr>,
        \<lparr>stack_p = [\<lparr>tour_p = \<lparr>cities = [0, 1, NO_CITY], count = 2, cost = 2147483647\<rparr>,
                      city = 2, elt_cost = 1\<rparr>],
          my_count = 1, l_best_tour = 1000000\<rparr>)
   \<and> \<not> (0 + 2147483647 + [0, 2147483647, 1,  1, 0, 1,  1, 1, 0] ! (3 * nat 1 + 2) < (1000000::int))"
  by code_simp


subsection \<open>Well-formed tours and the steps of a worker in its loop body\<close>

lemma visited_extended:
  "count (tour_p e) < length (cities (tour_p e)) \<Longrightarrow>
   visited (extended e) = visited (tour_p e) @ [city e]"
  by (simp add: visited_def extended_def take_Suc_conv_app_nth)

lemma path_cost_snoc:
  "v \<noteq> [] \<Longrightarrow> path_cost n mat (v @ [c]) = path_cost n mat v + mat ! (n * nat (last v) + nat c)"
  by (induction n mat v rule: path_cost.induct) auto

lemma tour_ok_nonempty: "tour_ok n mat t \<Longrightarrow> visited t \<noteq> []"
  by (auto simp: tour_ok_def visited_def)

lemma tour_ok_extended:
  assumes "elt_ok n mat e"
  shows "tour_ok n mat (extended e)"
proof -
  have t: "tour_ok n mat (tour_p e)" and c: "count (tour_p e) < n"
    using assms by (simp_all add: elt_ok_def)
  have len: "count (tour_p e) < length (cities (tour_p e))"
    using t c by (simp add: tour_ok_def)
  have v: "visited (extended e) = visited (tour_p e) @ [city e]"
    using len by (rule visited_extended)
  have ne: "visited (tour_p e) \<noteq> []" using t by (rule tour_ok_nonempty)
  show ?thesis
    unfolding tour_ok_def v
    using assms t c ne
    by (auto simp add: elt_ok_def tour_ok_def path_cost_snoc)
       (simp_all add: extended_def)
qed

lemma last_visited_extended:
  "elt_ok n mat e \<Longrightarrow> last (visited (extended e)) = city e"
  by (simp add: visited_extended elt_ok_def tour_ok_def)

lemma child_ok:
  assumes "tour_ok n mat t" "count t < n" "feasible_nbr n mat (last (visited t)) t l nbr"
    "nbr \<in> set [1..<n]"
  shows "elt_ok n mat (child n mat (last (visited t)) t nbr)"
proof -
  have v: "visited \<lparr>cities = take n (cities t), count = count t, cost = cost t\<rparr> = visited t"
    using assms(1) by (simp add: visited_def tour_ok_def min_def)
  have "tour_ok n mat \<lparr>cities = take n (cities t), count = count t, cost = cost t\<rparr>"
    unfolding tour_ok_def v using assms(1) by (simp add: tour_ok_def)
  then show ?thesis
    using assms(2,3,4) v by (simp add: elt_ok_def child_def feasible_nbr_def visited_def)
qed

lemma Expand_eq:
  assumes "n \<le> length (cities t)" "count t \<le> length (cities t)" "0 \<le> cty" "nat cty < n"
    "length mat = n * n"
  shows "Expand n mat cty t loc =
     Some (loc\<lparr>stack_p :=
                 map (child n mat cty t) (filter (feasible_nbr n mat cty t (l_best_tour loc)) [1..<n])
                 @ stack_p loc,
               my_count := my_count loc +
                 length (filter (feasible_nbr n mat cty t (l_best_tour loc)) [1..<n])\<rparr>)"
proof -
  have n: "n - 1 < n" "Suc (n - 1) = n" using assms(4) by simp_all
  have "Expand n mat cty t loc =
     Some (loc\<lparr>stack_p :=
                 fold (\<lambda>nbr st. child n mat cty t nbr # st)
                   (filter (feasible_nbr n mat cty t (l_best_tour loc)) (rev [1..<n]))
                   (stack_p loc),
               my_count := my_count loc +
                 length (filter (feasible_nbr n mat cty t (l_best_tour loc)) (rev [1..<n]))\<rparr>)"
    unfolding Expand_def
    using Expand_loop_eq[OF assms(1,2,3,4) n(1) assms(5), of loc] by (simp only: n(2))
  then show ?thesis
    by (simp add: fold_push rev_map[symmetric] rev_filter[symmetric])
qed

lemma elt_ok_bounds:
  assumes "elt_ok n mat e"
  shows "count (tour_p e) < length (cities (tour_p e))" "n \<le> length (cities (tour_p e))"
    "0 \<le> city e" "nat (city e) < n" "count (extended e) \<le> n"
    "n \<le> length (cities (extended e))" "count (extended e) \<le> length (cities (extended e))"
  using assms by (auto simp: elt_ok_def tour_ok_def extended_def)

lemma step_In_body_expand:
  assumes "i < length (workers c)" "pc (workers c ! i) = In_body"
    "stack_p (workers c ! i) = e # rest" "elt_ok n mat e" "count (extended e) \<noteq> n"
    "length mat = n * n"
  shows "worker_step n mat T i j c =
     Some (c\<lparr>workers := (workers c)[i := (workers c ! i)
        \<lparr>stack_p := map (child n mat (city e) (extended e))
             (filter (feasible_nbr n mat (city e) (extended e) (l_best_tour (workers c ! i))) [1..<n])
             @ rest,
         my_count := my_count (workers c ! i) - 1 +
             length (filter (feasible_nbr n mat (city e) (extended e)
                (l_best_tour (workers c ! i))) [1..<n]),
         pc := At_Terminated\<rparr>]\<rparr>)"
proof -
  note b = elt_ok_bounds[OF assms(4)]
  show ?thesis
    using assms(1,2,5)
    by (simp add: worker_step_def Let_def Extend_eq[OF assms(3) b(1)]
        Expand_eq[OF b(6,7,3,4) assms(6)])
qed

lemma step_In_body_check:
  assumes "i < length (workers c)" "pc (workers c ! i) = In_body"
    "stack_p (workers c ! i) = e # rest" "elt_ok n mat e" "count (extended e) = n"
    "length mat = n * n"
  shows "worker_step n mat T i j c =
     Some (c\<lparr>workers := (workers c)[i := (workers c ! i)
        \<lparr>stack_p := rest, my_count := my_count (workers c ! i) - 1,
         l_best_tour := cost (best_tour c),
         pc := (if closing_cost n mat (city e, extended e) < cost (best_tour c)
                then Upgrading (extended e) (city e) else At_Terminated)\<rparr>]\<rparr>)"
proof -
  note b = elt_ok_bounds[OF assms(4)]
  have "submission_ok n (city e, extended e)"
    using assms(5) b by (simp add: submission_ok_def)
  from Check_best_tour_rd_eq[OF this assms(6)] show ?thesis
    using assms(1,2,5)
    by (simp add: worker_step_def Let_def Extend_eq[OF assms(3) b(1)])
qed

lemma step_Upgrading:
  assumes "i < length (workers c)" "pc (workers c ! i) = Upgrading t cty"
    "tour_ok n mat t" "count t = n" "cty = last (visited t)"
    "length mat = n * n" "length (cities (best_tour c)) = n + 1"
  shows "worker_step n mat T i j c =
     Some (c\<lparr>best_tour :=
              (if closing_cost n mat (cty, t) < cost (best_tour c)
               then \<lparr>cities = take n (cities t) @ [0], count = n + 1,
                      cost = closing_cost n mat (cty, t)\<rparr>
               else best_tour c),
            workers := (workers c)[i := (workers c ! i)\<lparr>pc := At_Terminated\<rparr>]\<rparr>)"
proof -
  have "visited t \<noteq> []" using assms(3) by (rule tour_ok_nonempty)
  then have "last (visited t) \<in> set (visited t)" by simp
  then have "0 \<le> cty \<and> cty < int n"
    using assms(3,5) by (auto simp: tour_ok_def list_all_iff)
  then have "0 \<le> cty \<and> nat cty < n" by auto
  then have "submission_ok n (cty, t)"
    using assms(3,4) by (simp add: submission_ok_def tour_ok_def)
  from Check_best_tour_wr_eq[OF this assms(7,6)] show ?thesis
    using assms(1,2) by (simp add: worker_step_def Let_def)
qed

subsection \<open>The steps of a worker in Terminated\<close>

lemma step_donate:
  assumes "i < length (workers c)" "pc (workers c ! i) = At_Terminated"
    "2 \<le> my_count (workers c ! i)" "my_count (workers c ! i) = length (stack_p (workers c ! i))"
    "0 < threads_in_cond_wait c" "new_stack c = []"
  shows "worker_step n mat T i j c =
     Some (c\<lparr>new_stack := even_positions (stack_p (workers c ! i)),
            new_stack_size := length (even_positions (stack_p (workers c ! i))),
            workers := cond_signal j ((workers c)[i := (workers c ! i)
              \<lparr>stack_p := odd_positions (stack_p (workers c ! i)),
               my_count := length (odd_positions (stack_p (workers c ! i))),
               pc := In_body\<rparr>])\<rparr>)"
proof -
  have "2 \<le> length (stack_p (workers c ! i))" using assms(3,4) by simp
  from Split_stack_eq[OF this] show ?thesis
    using assms(1,2,3,5,6)
    by (simp add: worker_step_def Let_def Terminated_def cond_apply_def pc_after_def)
qed

lemma step_continue:
  assumes "i < length (workers c)" "pc (workers c ! i) = At_Terminated"
    "\<not> (2 \<le> my_count (workers c ! i) \<and> 0 < threads_in_cond_wait c \<and> new_stack c = [])"
    "stack_p (workers c ! i) \<noteq> []"
  shows "worker_step n mat T i j c =
     Some (c\<lparr>workers := (workers c)[i := (workers c ! i)\<lparr>pc := In_body\<rparr>]\<rparr>)"
  using assms
  by (auto simp add: worker_step_def Let_def Terminated_def cond_apply_def pc_after_def Empty_def)

lemma step_last:
  assumes "i < length (workers c)" "pc (workers c ! i) = At_Terminated"
    "my_count (workers c ! i) = length (stack_p (workers c ! i))"
    "stack_p (workers c ! i) = []" "threads_in_cond_wait c + 1 = T"
  shows "worker_step n mat T i j c =
     Some (c\<lparr>threads_in_cond_wait := threads_in_cond_wait c + 1,
            workers := cond_broadcast ((workers c)[i := (workers c ! i)\<lparr>pc := Halted\<rparr>])\<rparr>)"
proof -
  have "int (threads_in_cond_wait c) = int T - 1" using assms(5) by simp
  then show ?thesis
    using assms(1,2,3,4)
    by (simp add: worker_step_def Let_def Terminated_def cond_apply_def pc_after_def Empty_def)
qed

lemma step_park:
  assumes "i < length (workers c)" "pc (workers c ! i) = At_Terminated"
    "my_count (workers c ! i) = length (stack_p (workers c ! i))"
    "stack_p (workers c ! i) = []" "threads_in_cond_wait c + 1 \<noteq> T"
  shows "worker_step n mat T i j c =
     Some (c\<lparr>threads_in_cond_wait := threads_in_cond_wait c + 1,
            workers := (workers c)[i := (workers c ! i)\<lparr>pc := Parked\<rparr>]\<rparr>)"
proof -
  have "int (threads_in_cond_wait c) \<noteq> int T - 1" using assms(5) by linarith
  then show ?thesis
    using assms(1,2,3,4)
    by (simp add: worker_step_def Let_def Terminated_def cond_apply_def pc_after_def Empty_def)
qed

lemma step_adopt:
  assumes "i < length (workers c)" "pc (workers c ! i) = Woken" "threads_in_cond_wait c < T"
  shows "worker_step n mat T i j c =
     Some (c\<lparr>new_stack := [], new_stack_size := 0,
            threads_in_cond_wait := threads_in_cond_wait c - 1,
            workers := (workers c)[i := (workers c ! i)
              \<lparr>stack_p := new_stack c, my_count := new_stack_size c, pc := In_body\<rparr>]\<rparr>)"
  using assms by (simp add: worker_step_def Let_def Terminated_wake_def)

lemma step_release:
  assumes "i < length (workers c)" "pc (workers c ! i) = Woken" "\<not> threads_in_cond_wait c < T"
  shows "worker_step n mat T i j c =
     Some (c\<lparr>workers := (workers c)[i := (workers c ! i)\<lparr>pc := Halted\<rparr>]\<rparr>)"
  using assms by (simp add: worker_step_def Let_def Terminated_wake_def)

lemma step_idle:
  assumes "\<not> i < length (workers c) \<or> pc (workers c ! i) = Parked \<or> pc (workers c ! i) = Halted"
  shows "worker_step n mat T i j c = Some c"
  using assms by (auto simp add: worker_step_def Let_def)

subsection \<open>Counting workers\<close>

lemma filter_update_count:
  assumes "i < length xs"
  shows "length (filter P (xs[i := y])) + (if P (xs ! i) then 1 else 0)
       = length (filter P xs) + (if P y then 1 else 0)"
proof -
  have a: "xs = take i xs @ xs ! i # drop (Suc i) xs"
    using assms by (rule id_take_nth_drop)
  have b: "xs[i := y] = take i xs @ y # drop (Suc i) xs"
    using assms by (rule upd_conv_take_nth_drop)
  have "length (filter P xs) =
      length (filter P (take i xs)) + (if P (xs ! i) then 1 else 0)
      + length (filter P (drop (Suc i) xs))"
    by (subst a) simp
  moreover have "length (filter P (xs[i := y])) =
      length (filter P (take i xs)) + (if P y then 1 else 0)
      + length (filter P (drop (Suc i) xs))"
    by (subst b) simp
  ultimately show ?thesis by simp
qed

lemma filter_count_exists:
  assumes "0 < length (filter P xs)"
  shows "\<exists>k<length xs. P (xs ! k)"
proof -
  from assms obtain x where "x \<in> set (filter P xs)"
    by (cases "filter P xs") auto
  then have "x \<in> set xs" "P x" by simp_all
  then show ?thesis by (auto simp: in_set_conv_nth)
qed

lemma filter_count_all_but_one:
  assumes "length (filter P xs) + 1 = length xs" "i < length xs" "\<not> P (xs ! i)"
    "k < length xs" "k \<noteq> i"
  shows "P (xs ! k)"
proof (rule ccontr)
  assume n: "\<not> P (xs ! k)"
  have "filter P xs = filter P (take i xs) @ filter P (drop (Suc i) xs)"
    using assms(2,3) by (subst id_take_nth_drop[OF assms(2)]) simp
  then have l: "length (filter P (take i xs)) + length (filter P (drop (Suc i) xs)) + 1 = length xs"
    using assms(1) by simp
  have "length (filter P (take i xs)) \<le> length (take i xs)" by (rule length_filter_le)
  moreover have "length (filter P (drop (Suc i) xs)) \<le> length (drop (Suc i) xs)"
    by (rule length_filter_le)
  ultimately have e: "length (filter P (take i xs)) = length (take i xs)"
    "length (filter P (drop (Suc i) xs)) = length (drop (Suc i) xs)"
    using l assms(2) by simp_all
  show False
  proof (cases "k < i")
    case True
    then have "xs ! k \<in> set (take i xs)"
      using assms(2) by (auto simp: in_set_conv_nth intro!: exI[of _ k])
    from length_filter_less[of "xs ! k" "take i xs" P, OF this n] e(1) show False by simp
  next
    case False
    then have "i < k" using assms(5) by simp
    then have "xs ! k = drop (Suc i) xs ! (k - Suc i)" using assms(4) by simp
    moreover have "k - Suc i < length (drop (Suc i) xs)" using \<open>i < k\<close> assms(4) by simp
    ultimately have "xs ! k \<in> set (drop (Suc i) xs)" by (metis nth_mem)
    from length_filter_less[of "xs ! k" "drop (Suc i) xs" P, OF this n] e(2) show False by simp
  qed
qed

lemma cond_signal_wakes:
  assumes "\<exists>k<length ws. pc (ws ! k) = Parked"
  shows "\<exists>k<length ws. pc (ws ! k) = Parked \<and> cond_signal j ws = ws[k := (ws ! k)\<lparr>pc := Woken\<rparr>]"
proof (cases "j < length ws \<and> pc (ws ! j) = Parked")
  case True
  then show ?thesis by (auto simp: cond_signal_def wake_def)
next
  case False
  have "find (\<lambda>k. pc (ws ! k) = Parked) [0..<length ws] \<noteq> None"
    using assms by (simp add: find_None_iff)
  then obtain k where k: "find (\<lambda>k. pc (ws ! k) = Parked) [0..<length ws] = Some k" by auto
  then have "k < length ws \<and> pc (ws ! k) = Parked"
    by (auto simp: find_Some_iff)
  then show ?thesis using False k by (auto simp: cond_signal_def wake_def)
qed

lemma list_all_update: "list_all P xs \<Longrightarrow> P y \<Longrightarrow> list_all P (xs[i := y])"
  by (auto simp: list_all_iff dest!: set_update_subset_insert[THEN subsetD])

lemma list_all_nth: "list_all P xs \<Longrightarrow> i < length xs \<Longrightarrow> P (xs ! i)"
  by (simp add: list_all_length)

subsection \<open>The invariant of the threads is kept by every step\<close>

lemma set_odd_positions: "set (odd_positions xs) \<subseteq> set xs"
  by (induction xs rule: odd_positions.induct) auto

lemma set_even_positions: "set (even_positions xs) \<subseteq> set xs"
  by (induction xs rule: even_positions.induct) auto

lemma list_all_subset: "list_all P xs \<Longrightarrow> set ys \<subseteq> set xs \<Longrightarrow> list_all P ys"
  by (auto simp: list_all_iff)

lemma active_not_finished:
  assumes "coord_ok T c" "i < length (workers c)" "\<not> waiting (workers c ! i)"
    "pc (workers c ! i) \<noteq> Halted"
  shows "threads_in_cond_wait c < T"
proof (rule ccontr)
  assume "\<not> threads_in_cond_wait c < T"
  then have "list_all (\<lambda>w. pc w = Woken \<or> pc w = Halted) (workers c)"
    using assms(1) by (simp add: coord_ok_def)
  from list_all_nth[OF this assms(2)] show False
    using assms(3,4) by (simp add: waiting_def)
qed

lemma coord_ok_running:
  assumes "coord_ok T c" "threads_in_cond_wait c < T"
  shows "threads_in_cond_wait c = length (filter waiting (workers c))"
    "list_all (\<lambda>w. pc w \<noteq> Halted) (workers c)"
    "length (filter (\<lambda>w. pc w = Woken) (workers c)) = (if new_stack c = [] then 0 else 1)"
  using assms by (simp_all add: coord_ok_def)

lemma ok_update_running:
  assumes "config_ok n mat T c" "i < length (workers c)" "\<not> waiting (workers c ! i)"
    "pc (workers c ! i) \<noteq> Halted" "worker_ok n mat w'" "\<not> waiting w'" "pc w' \<noteq> Halted"
  shows "config_ok n mat T (c\<lparr>workers := (workers c)[i := w']\<rparr>)"
proof -
  have co: "coord_ok T c" using assms(1) by (simp add: config_ok_def)
  have lt: "threads_in_cond_wait c < T"
    using co assms(2,3,4) by (rule active_not_finished)
  note r = coord_ok_running[OF co lt]
  have a: "length (filter waiting ((workers c)[i := w'])) = length (filter waiting (workers c))"
    using filter_update_count[OF assms(2), of waiting w'] assms(3,6) by simp
  have nw: "pc (workers c ! i) \<noteq> Woken" "pc w' \<noteq> Woken"
    using assms(3,6) by (simp_all add: waiting_def)
  have b: "length (filter (\<lambda>w. pc w = Woken) ((workers c)[i := w']))
         = length (filter (\<lambda>w. pc w = Woken) (workers c))"
    using filter_update_count[OF assms(2), of "\<lambda>w. pc w = Woken" w'] nw by simp
  have "coord_ok T (c\<lparr>workers := (workers c)[i := w']\<rparr>)"
    using co lt r a b assms(7)
    by (simp add: coord_ok_def list_all_update)
  then show ?thesis
    using assms(1,5) by (simp add: config_ok_def list_all_update)
qed

lemma ok_update_best:
  "config_ok n mat T c \<Longrightarrow> length (cities b) = n + 1 \<Longrightarrow> config_ok n mat T (c\<lparr>best_tour := b\<rparr>)"
  by (simp add: config_ok_def coord_ok_def)

lemma worker_ok_nth:
  "config_ok n mat T c \<Longrightarrow> i < length (workers c) \<Longrightarrow> worker_ok n mat (workers c ! i)"
  by (simp add: config_ok_def list_all_nth)

lemma none_woken:
  assumes "length (filter (\<lambda>w. pc w = Woken) ws) = 0" "k < length ws"
  shows "pc (ws ! k) \<noteq> Woken"
proof
  assume "pc (ws ! k) = Woken"
  then have "ws ! k \<in> set (filter (\<lambda>w. pc w = Woken) ws)" using assms(2) by simp
  moreover have "filter (\<lambda>w. pc w = Woken) ws = []" using assms(1) by simp
  ultimately show False by (simp only: set_simps empty_iff)
qed

lemma worker_ok_wake: "worker_ok n mat w \<Longrightarrow> worker_ok n mat (wake w)"
  by (auto simp: worker_ok_def wake_def pc_ok_def)

lemma worker_ok_woken:
  "worker_ok n mat w \<Longrightarrow> pc w = Parked \<Longrightarrow> worker_ok n mat (w\<lparr>pc := Woken\<rparr>)"
  by (auto simp: worker_ok_def pc_ok_def)

lemma ok_donate:
  assumes "config_ok n mat T c" "i < length (workers c)" "pc (workers c ! i) = At_Terminated"
    "2 \<le> length (stack_p (workers c ! i))" "0 < threads_in_cond_wait c" "new_stack c = []"
  shows "config_ok n mat T
     (c\<lparr>new_stack := even_positions (stack_p (workers c ! i)),
        new_stack_size := length (even_positions (stack_p (workers c ! i))),
        workers := cond_signal j ((workers c)[i := (workers c ! i)
              \<lparr>stack_p := odd_positions (stack_p (workers c ! i)),
               my_count := length (odd_positions (stack_p (workers c ! i))),
               pc := In_body\<rparr>])\<rparr>)"
proof -
  define ws where "ws = workers c"
  define st where "st = stack_p (ws ! i)"
  define w' where "w' = (ws ! i)\<lparr>stack_p := odd_positions st,
               my_count := length (odd_positions st), pc := In_body\<rparr>"
  define ws1 where "ws1 = ws[i := w']"
  have co: "coord_ok T c" using assms(1) by (simp add: config_ok_def)
  have act: "\<not> waiting (ws ! i)" "pc (ws ! i) \<noteq> Halted"
    using assms(3) by (simp_all add: waiting_def ws_def)
  have lt: "threads_in_cond_wait c < T"
    using co assms(2) act unfolding ws_def by (rule active_not_finished)
  note r = coord_ok_running[OF co lt]
  have i: "i < length ws" using assms(2) by (simp add: ws_def)
  have wok: "worker_ok n mat (ws ! i)" using assms(1,2) unfolding ws_def by (rule worker_ok_nth)
  have len: "2 \<le> length st" using assms(4) by (simp add: st_def ws_def)
  have odd_ne: "odd_positions st \<noteq> []" and even_ne: "even_positions st \<noteq> []"
    using len by (cases st rule: odd_positions.cases; simp)+
  have w'ok: "worker_ok n mat w'"
    using wok set_odd_positions[of st] odd_ne
    by (auto simp: worker_ok_def w'_def pc_ok_def st_def list_all_iff)
  have now: "length (filter (\<lambda>w. pc w = Woken) ws) = 0"
    using r(3) assms(6) by (simp add: ws_def)
  have "0 < length (filter waiting ws)" using r(1) assms(5) by (simp add: ws_def)
  from filter_count_exists[OF this]
  obtain k where k: "k < length ws" "waiting (ws ! k)" by blast
  have kp: "pc (ws ! k) = Parked"
    using k none_woken[OF now k(1)] by (simp add: waiting_def)
  have ki: "k \<noteq> i" using kp assms(3) by (auto simp: ws_def)
  have "k < length ws1 \<and> pc (ws1 ! k) = Parked" using k(1) kp ki by (simp add: ws1_def)
  then have "\<exists>k<length ws1. pc (ws1 ! k) = Parked" by blast
  from cond_signal_wakes[OF this, of j] obtain m where
    m: "m < length ws1" "pc (ws1 ! m) = Parked" "cond_signal j ws1 = ws1[m := (ws1 ! m)\<lparr>pc := Woken\<rparr>]"
    by blast
  have c1: "length (filter waiting ws1) = length (filter waiting ws)"
    using filter_update_count[OF i, of waiting w'] act(1) by (simp add: ws1_def w'_def waiting_def)
  have c2: "length (filter (\<lambda>w. pc w = Woken) ws1) = 0"
    using filter_update_count[OF i, of "\<lambda>w. pc w = Woken" w'] now assms(3)
    by (simp add: ws1_def w'_def ws_def)
  have d1: "length (filter waiting (cond_signal j ws1)) = length (filter waiting ws)"
    using filter_update_count[OF m(1), of waiting "(ws1 ! m)\<lparr>pc := Woken\<rparr>"] m(2,3) c1
    by (simp add: waiting_def)
  have d2: "length (filter (\<lambda>w. pc w = Woken) (cond_signal j ws1)) = 1"
    using filter_update_count[OF m(1), of "\<lambda>w. pc w = Woken" "(ws1 ! m)\<lparr>pc := Woken\<rparr>"] m(2,3) c2
    by simp
  have h1: "list_all (\<lambda>w. pc w \<noteq> Halted) ws1"
    using r(2) by (simp add: ws1_def ws_def[symmetric] w'_def list_all_update)
  have d3: "list_all (\<lambda>w. pc w \<noteq> Halted) (cond_signal j ws1)"
    using h1 by (simp add: m(3) list_all_update)
  have ok1: "list_all (worker_ok n mat) ws1"
    using assms(1) w'ok by (simp add: ws1_def config_ok_def ws_def[symmetric] list_all_update)
  have "worker_ok n mat (ws1 ! m)" using ok1 m(1) by (rule list_all_nth)
  then have "worker_ok n mat ((ws1 ! m)\<lparr>pc := Woken\<rparr>)" using m(2) by (rule worker_ok_woken)
  then have d4: "list_all (worker_ok n mat) (cond_signal j ws1)"
    using ok1 by (simp add: m(3) list_all_update)
  have d5: "list_all (elt_ok n mat) (even_positions st)"
    using wok set_even_positions[of st] by (auto simp: worker_ok_def st_def list_all_iff)
  have "length (cond_signal j ws1) = length ws"
    unfolding m(3) by (simp add: ws1_def)
  then have d6: "length (cond_signal j ws1) = T"
    using co by (simp add: ws_def coord_ok_def)
  have "config_ok n mat T
     (c\<lparr>new_stack := even_positions st, new_stack_size := length (even_positions st),
        workers := cond_signal j ws1\<rparr>)"
    using assms(1) lt r(1) d1 d2 d3 d4 d5 d6 even_ne
    by (simp add: config_ok_def coord_ok_def ws_def[symmetric])
  then show ?thesis by (simp add: ws1_def w'_def st_def ws_def)
qed

lemma ok_last:
  assumes "config_ok n mat T c" "i < length (workers c)" "pc (workers c ! i) = At_Terminated"
    "stack_p (workers c ! i) = []" "threads_in_cond_wait c + 1 = T"
  shows "config_ok n mat T
     (c\<lparr>threads_in_cond_wait := threads_in_cond_wait c + 1,
        workers := cond_broadcast ((workers c)[i := (workers c ! i)\<lparr>pc := Halted\<rparr>])\<rparr>)"
proof -
  define ws where "ws = workers c"
  have co: "coord_ok T c" using assms(1) by (simp add: config_ok_def)
  have lt: "threads_in_cond_wait c < T" using assms(5) by simp
  note r = coord_ok_running[OF co lt]
  have i: "i < length ws" using assms(2) by (simp add: ws_def)
  have len: "length ws = T" using co by (simp add: coord_ok_def ws_def)
  have nw: "\<not> waiting (ws ! i)" using assms(3) by (simp add: waiting_def ws_def)
  have cnt: "length (filter waiting ws) + 1 = length ws"
    using r(1) assms(5) len by (simp add: ws_def)
  have others: "waiting (ws ! k)" if "k < length ws" "k \<noteq> i" for k
    using cnt i nw that by (rule filter_count_all_but_one)
  have wok: "list_all (worker_ok n mat) ws" using assms(1) by (simp add: config_ok_def ws_def)
  have hok: "worker_ok n mat ((ws ! i)\<lparr>pc := Halted\<rparr>)"
    using list_all_nth[OF wok i] assms(4) by (simp add: worker_ok_def pc_ok_def ws_def)
  have a: "list_all (worker_ok n mat) (cond_broadcast (ws[i := (ws ! i)\<lparr>pc := Halted\<rparr>]))"
    using wok hok
    by (auto simp: cond_broadcast_def list_all_iff worker_ok_wake
        dest!: set_update_subset_insert[THEN subsetD])
  have b: "list_all (\<lambda>w. pc w = Woken \<or> pc w = Halted)
      (cond_broadcast (ws[i := (ws ! i)\<lparr>pc := Halted\<rparr>]))"
    unfolding list_all_length
  proof (intro allI impI)
    fix k assume "k < length (cond_broadcast (ws[i := (ws ! i)\<lparr>pc := Halted\<rparr>]))"
    then have k: "k < length ws" by (simp add: cond_broadcast_def)
    show "pc (cond_broadcast (ws[i := (ws ! i)\<lparr>pc := Halted\<rparr>]) ! k) = Woken
        \<or> pc (cond_broadcast (ws[i := (ws ! i)\<lparr>pc := Halted\<rparr>]) ! k) = Halted"
    proof (cases "k = i")
      case True
      then show ?thesis using k by (simp add: cond_broadcast_def wake_def)
    next
      case False
      then show ?thesis
        using k others[OF k False] by (auto simp: cond_broadcast_def wake_def waiting_def)
    qed
  qed
  have "config_ok n mat T
     (c\<lparr>threads_in_cond_wait := threads_in_cond_wait c + 1,
        workers := cond_broadcast (ws[i := (ws ! i)\<lparr>pc := Halted\<rparr>])\<rparr>)"
    using assms(1,5) a b len
    by (simp add: config_ok_def coord_ok_def cond_broadcast_def)
  then show ?thesis by (simp add: ws_def)
qed

lemma ok_park:
  assumes "config_ok n mat T c" "i < length (workers c)" "pc (workers c ! i) = At_Terminated"
    "stack_p (workers c ! i) = []" "threads_in_cond_wait c + 1 \<noteq> T"
  shows "config_ok n mat T
     (c\<lparr>threads_in_cond_wait := threads_in_cond_wait c + 1,
        workers := (workers c)[i := (workers c ! i)\<lparr>pc := Parked\<rparr>]\<rparr>)"
proof -
  define ws where "ws = workers c"
  have co: "coord_ok T c" using assms(1) by (simp add: config_ok_def)
  have act: "\<not> waiting (ws ! i)" "pc (ws ! i) \<noteq> Halted"
    using assms(3) by (simp_all add: waiting_def ws_def)
  have lt: "threads_in_cond_wait c < T"
    using co assms(2) act unfolding ws_def by (rule active_not_finished)
  then have lt': "threads_in_cond_wait c + 1 < T" using assms(5) by simp
  note r = coord_ok_running[OF co lt]
  have i: "i < length ws" using assms(2) by (simp add: ws_def)
  have c1: "length (filter waiting (ws[i := (ws ! i)\<lparr>pc := Parked\<rparr>])) = length (filter waiting ws) + 1"
    using filter_update_count[OF i, of waiting "(ws ! i)\<lparr>pc := Parked\<rparr>"] act(1)
    by (simp add: waiting_def)
  have c2: "length (filter (\<lambda>w. pc w = Woken) (ws[i := (ws ! i)\<lparr>pc := Parked\<rparr>]))
      = length (filter (\<lambda>w. pc w = Woken) ws)"
    using filter_update_count[OF i, of "\<lambda>w. pc w = Woken" "(ws ! i)\<lparr>pc := Parked\<rparr>"] assms(3)
    by (simp add: ws_def)
  have wok: "list_all (worker_ok n mat) ws" using assms(1) by (simp add: config_ok_def ws_def)
  have pok: "worker_ok n mat ((ws ! i)\<lparr>pc := Parked\<rparr>)"
    using list_all_nth[OF wok i] assms(4) by (simp add: worker_ok_def pc_ok_def ws_def)
  have "config_ok n mat T
     (c\<lparr>threads_in_cond_wait := threads_in_cond_wait c + 1,
        workers := ws[i := (ws ! i)\<lparr>pc := Parked\<rparr>]\<rparr>)"
    using assms(1) lt' r c1 c2 wok pok
    by (simp add: config_ok_def coord_ok_def ws_def[symmetric] list_all_update)
  then show ?thesis by (simp add: ws_def)
qed

lemma ok_adopt:
  assumes "config_ok n mat T c" "i < length (workers c)" "pc (workers c ! i) = Woken"
    "threads_in_cond_wait c < T"
  shows "new_stack c \<noteq> []"
    "config_ok n mat T
     (c\<lparr>new_stack := [], new_stack_size := 0,
        threads_in_cond_wait := threads_in_cond_wait c - 1,
        workers := (workers c)[i := (workers c ! i)
              \<lparr>stack_p := new_stack c, my_count := new_stack_size c, pc := In_body\<rparr>]\<rparr>)"
proof -
  define ws where "ws = workers c"
  define w' where "w' = (ws ! i)\<lparr>stack_p := new_stack c, my_count := new_stack_size c, pc := In_body\<rparr>"
  have co: "coord_ok T c" using assms(1) by (simp add: config_ok_def)
  note r = coord_ok_running[OF co assms(4)]
  have i: "i < length ws" using assms(2) by (simp add: ws_def)
  have "ws ! i \<in> set (filter (\<lambda>w. pc w = Woken) ws)" using i assms(3) by (simp add: ws_def)
  then have "0 < length (filter (\<lambda>w. pc w = Woken) ws)" by (cases "filter (\<lambda>w. pc w = Woken) ws") auto
  then show ne: "new_stack c \<noteq> []" using r(3) by (auto simp: ws_def split: if_splits)
  then have one: "length (filter (\<lambda>w. pc w = Woken) ws) = 1" using r(3) by (simp add: ws_def)
  have c1: "length (filter waiting (ws[i := w'])) + 1 = length (filter waiting ws)"
    using filter_update_count[OF i, of waiting w'] assms(3)
    by (simp add: waiting_def w'_def ws_def)
  have c2: "length (filter (\<lambda>w. pc w = Woken) (ws[i := w'])) = 0"
    using filter_update_count[OF i, of "\<lambda>w. pc w = Woken" w'] assms(3) one
    by (simp add: w'_def ws_def)
  have wok: "list_all (worker_ok n mat) ws" using assms(1) by (simp add: config_ok_def ws_def)
  have w'ok: "worker_ok n mat w'"
    using assms(1) co ne by (simp add: worker_ok_def w'_def pc_ok_def config_ok_def coord_ok_def)
  have "threads_in_cond_wait c - 1 = length (filter waiting (ws[i := w']))"
    using c1 r(1) by (simp add: ws_def)
  moreover have "threads_in_cond_wait c - 1 < T" using assms(4) by simp
  moreover have "list_all (\<lambda>w. pc w \<noteq> Halted) (ws[i := w'])"
    using r(2) by (simp add: ws_def[symmetric] w'_def list_all_update)
  ultimately have "config_ok n mat T
     (c\<lparr>new_stack := [], new_stack_size := 0,
        threads_in_cond_wait := threads_in_cond_wait c - 1,
        workers := ws[i := w']\<rparr>)"
    using assms(1) c2 wok w'ok
    by (simp add: config_ok_def coord_ok_def ws_def[symmetric] list_all_update)
  then show "config_ok n mat T
     (c\<lparr>new_stack := [], new_stack_size := 0,
        threads_in_cond_wait := threads_in_cond_wait c - 1,
        workers := (workers c)[i := (workers c ! i)
              \<lparr>stack_p := new_stack c, my_count := new_stack_size c, pc := In_body\<rparr>]\<rparr>)"
    by (simp add: w'_def ws_def)
qed

lemma ok_release:
  assumes "config_ok n mat T c" "i < length (workers c)" "pc (workers c ! i) = Woken"
    "\<not> threads_in_cond_wait c < T"
  shows "config_ok n mat T (c\<lparr>workers := (workers c)[i := (workers c ! i)\<lparr>pc := Halted\<rparr>]\<rparr>)"
proof -
  have wok: "worker_ok n mat (workers c ! i)" using assms(1,2) by (rule worker_ok_nth)
  then have "worker_ok n mat ((workers c ! i)\<lparr>pc := Halted\<rparr>)"
    using assms(3) by (simp add: worker_ok_def pc_ok_def)
  then show ?thesis
    using assms(1,4) by (simp add: config_ok_def coord_ok_def list_all_update)
qed

lemma step_ok_At_Terminated:
  assumes "config_ok n mat T c" "i < length (workers c)" "pc (workers c ! i) = At_Terminated"
  shows "\<exists>c'. worker_step n mat T i j c = Some c' \<and> config_ok n mat T c'"
proof -
  have wok: "worker_ok n mat (workers c ! i)" using assms(1,2) by (rule worker_ok_nth)
  then have mc: "my_count (workers c ! i) = length (stack_p (workers c ! i))"
    by (simp add: worker_ok_def)
  have act: "\<not> waiting (workers c ! i)" "pc (workers c ! i) \<noteq> Halted"
    using assms(3) by (simp_all add: waiting_def)
  show ?thesis
  proof (cases "2 \<le> my_count (workers c ! i) \<and> 0 < threads_in_cond_wait c \<and> new_stack c = []")
    case True
    then have l: "2 \<le> length (stack_p (workers c ! i))" using mc by simp
    show ?thesis
      using step_donate[where n=n and mat=mat and T=T and j=j, OF assms(2,3) _ mc] True
        ok_donate[where j=j, OF assms(1,2,3) l]
      by simp
  next
    case False
    show ?thesis
    proof (cases "stack_p (workers c ! i) = []")
      case ne: False
      have "worker_ok n mat ((workers c ! i)\<lparr>pc := In_body\<rparr>)"
        using wok ne by (simp add: worker_ok_def pc_ok_def)
      from ok_update_running[OF assms(1,2) act this]
      show ?thesis
        using step_continue[where n=n and mat=mat and T=T and j=j, OF assms(2,3) False ne] by (simp add: waiting_def)
    next
      case True
      show ?thesis
      proof (cases "threads_in_cond_wait c + 1 = T")
        case l: True
        show ?thesis
          using step_last[where n=n and mat=mat and j=j, OF assms(2,3) mc True l] ok_last[OF assms(1,2,3) True l]
          by simp
      next
        case l: False
        show ?thesis
          using step_park[where n=n and mat=mat and j=j, OF assms(2,3) mc True l] ok_park[OF assms(1,2,3) True l]
          by simp
      qed
    qed
  qed
qed

lemma step_ok_In_body:
  assumes "config_ok n mat T c" "i < length (workers c)" "pc (workers c ! i) = In_body"
    "length mat = n * n"
  shows "\<exists>c'. worker_step n mat T i j c = Some c' \<and> config_ok n mat T c'"
proof -
  define w where "w = workers c ! i"
  have wok: "worker_ok n mat w" using assms(1,2) unfolding w_def by (rule worker_ok_nth)
  have act: "\<not> waiting (workers c ! i)" "pc (workers c ! i) \<noteq> Halted"
    using assms(3) by (simp_all add: waiting_def)
  have "stack_p w \<noteq> []" using wok assms(3) by (simp add: worker_ok_def pc_ok_def w_def)
  then obtain e rest where st: "stack_p w = e # rest" by (cases "stack_p w") auto
  have e: "elt_ok n mat e" and rest: "list_all (elt_ok n mat) rest"
    and mc: "my_count w - 1 = length rest"
    using wok st by (simp_all add: worker_ok_def)
  have tx: "tour_ok n mat (extended e)" using e by (rule tour_ok_extended)
  have lx: "last (visited (extended e)) = city e" using e by (rule last_visited_extended)
  show ?thesis
  proof (cases "count (extended e) = n")
    case True
    define w' where "w' = w\<lparr>stack_p := rest, my_count := my_count w - 1,
         l_best_tour := cost (best_tour c),
         pc := (if closing_cost n mat (city e, extended e) < cost (best_tour c)
                then Upgrading (extended e) (city e) else At_Terminated)\<rparr>"
    have "worker_ok n mat w'"
      using rest mc tx True lx by (simp add: worker_ok_def w'_def pc_ok_def)
    moreover have "\<not> waiting w'" "pc w' \<noteq> Halted" by (simp_all add: w'_def waiting_def)
    ultimately have "config_ok n mat T (c\<lparr>workers := (workers c)[i := w']\<rparr>)"
      using ok_update_running[OF assms(1,2) act] by blast
    then show ?thesis
      using step_In_body_check[where T=T and j=j, OF assms(2,3) st[unfolded w_def] e True assms(4)]
      by (simp add: w'_def w_def)
  next
    case False
    define fs where "fs = filter (feasible_nbr n mat (city e) (extended e) (l_best_tour w)) [1..<n]"
    define w' where "w' = w\<lparr>stack_p := map (child n mat (city e) (extended e)) fs @ rest,
         my_count := my_count w - 1 + length fs, pc := At_Terminated\<rparr>"
    have cl: "count (extended e) < n"
      using False elt_ok_bounds(5)[OF e] by simp
    have "elt_ok n mat (child n mat (city e) (extended e) nbr)" if "nbr \<in> set fs" for nbr
    proof -
      have "feasible_nbr n mat (last (visited (extended e))) (extended e) (l_best_tour w) nbr"
        "nbr \<in> set [1..<n]"
        using that by (simp_all add: fs_def lx)
      from child_ok[OF tx cl this] show ?thesis by (simp add: lx)
    qed
    then have "list_all (elt_ok n mat) (map (child n mat (city e) (extended e)) fs @ rest)"
      using rest by (auto simp add: list_all_iff)
    then have "worker_ok n mat w'"
      using mc by (simp add: worker_ok_def w'_def pc_ok_def)
    moreover have "\<not> waiting w'" "pc w' \<noteq> Halted" by (simp_all add: w'_def waiting_def)
    ultimately have "config_ok n mat T (c\<lparr>workers := (workers c)[i := w']\<rparr>)"
      using ok_update_running[OF assms(1,2) act] by blast
    then show ?thesis
      using step_In_body_expand[where T=T and j=j, OF assms(2,3) st[unfolded w_def] e False assms(4)]
      by (simp add: w'_def w_def fs_def)
  qed
qed

lemma step_ok_Upgrading:
  assumes "config_ok n mat T c" "i < length (workers c)" "pc (workers c ! i) = Upgrading t cty"
    "length mat = n * n"
  shows "\<exists>c'. worker_step n mat T i j c = Some c' \<and> config_ok n mat T c'"
proof -
  have wok: "worker_ok n mat (workers c ! i)" using assms(1,2) by (rule worker_ok_nth)
  then have t: "tour_ok n mat t" "count t = n" "cty = last (visited t)"
    using assms(3) by (simp_all add: worker_ok_def pc_ok_def)
  have lb: "length (cities (best_tour c)) = n + 1" using assms(1) by (simp add: config_ok_def)
  have act: "\<not> waiting (workers c ! i)" "pc (workers c ! i) \<noteq> Halted"
    using assms(3) by (simp_all add: waiting_def)
  define b where "b = (if closing_cost n mat (cty, t) < cost (best_tour c)
               then \<lparr>cities = take n (cities t) @ [0], count = n + 1,
                      cost = closing_cost n mat (cty, t)\<rparr>
               else best_tour c)"
  have "n \<le> length (cities t)" using t(1) by (simp add: tour_ok_def)
  then have "length (cities b) = n + 1" using lb by (simp add: b_def)
  from ok_update_best[OF assms(1) this]
  have c1: "config_ok n mat T (c\<lparr>best_tour := b\<rparr>)" .
  have "worker_ok n mat ((workers c ! i)\<lparr>pc := At_Terminated\<rparr>)"
    using wok by (simp add: worker_ok_def pc_ok_def)
  from ok_update_running[OF c1, of i "(workers c ! i)\<lparr>pc := At_Terminated\<rparr>"] this act assms(2)
  have "config_ok n mat T (c\<lparr>best_tour := b,
      workers := (workers c)[i := (workers c ! i)\<lparr>pc := At_Terminated\<rparr>]\<rparr>)"
    by (simp add: waiting_def)
  then show ?thesis
    using step_Upgrading[where T=T and j=j, OF assms(2,3) t assms(4) lb] by (simp add: b_def)
qed

lemma step_ok_Woken:
  assumes "config_ok n mat T c" "i < length (workers c)" "pc (workers c ! i) = Woken"
  shows "\<exists>c'. worker_step n mat T i j c = Some c' \<and> config_ok n mat T c'"
proof (cases "threads_in_cond_wait c < T")
  case True
  show ?thesis
    using step_adopt[where n=n and mat=mat and j=j, OF assms(2,3) True] ok_adopt(2)[OF assms True] by simp
next
  case False
  show ?thesis
    using step_release[where n=n and mat=mat and j=j, OF assms(2,3) False] ok_release[OF assms False] by simp
qed

lemma step_ok:
  assumes "config_ok n mat T c" "length mat = n * n"
  shows "\<exists>c'. worker_step n mat T i j c = Some c' \<and> config_ok n mat T c'"
proof (cases "i < length (workers c)")
  case False
  then show ?thesis using assms(1) by (simp add: step_idle)
next
  case True
  show ?thesis
  proof (cases "pc (workers c ! i)")
    case At_Terminated
    with assms(1) True show ?thesis by (rule step_ok_At_Terminated)
  next
    case In_body
    with assms(1) True show ?thesis using assms(2) by (rule step_ok_In_body)
  next
    case (Upgrading t cty)
    with assms(1) True show ?thesis using assms(2) by (rule step_ok_Upgrading)
  next
    case Parked
    then show ?thesis using assms(1) by (simp add: step_idle)
  next
    case Woken
    with assms(1) True show ?thesis by (rule step_ok_Woken)
  next
    case Halted
    then show ?thesis using assms(1) by (simp add: step_idle)
  qed
qed

lemma exec_ok:
  assumes "config_ok n mat T c" "length mat = n * n"
  shows "\<exists>c'. exec n mat T sched c = Some c' \<and> config_ok n mat T c'"
  using assms(1)
proof (induction sched arbitrary: c)
  case Nil
  then show ?case by simp
next
  case (Cons s sched)
  obtain i j where s: "s = (i, j)" by (cases s)
  from step_ok[where i=i and j=j, OF Cons.prems assms(2)] obtain c1 where
    "worker_step n mat T i j c = Some c1" "config_ok n mat T c1" by blast
  then show ?case using Cons.IH[of c1] by (simp add: s)
qed

subsection \<open>The invariant holds from the start\<close>

lemma init_workers_eq:
  assumes "1 \<le> n" "1 \<le> T" "length mat = n * n" "\<forall>r\<in>set rs. r < T"
  shows "init_workers n mat T rs = Some (map (seed_worker n mat T) rs)"
  using assms(4)
proof (induction rs)
  case Nil
  then show ?case by simp
next
  case (Cons r rs)
  then have r: "r < T" by simp
  show ?case
    using Cons by (simp add: Search_init_eq[OF assms(1,2,3) r] seed_worker_def slice_length)
qed

lemma init_config_eq:
  assumes "1 \<le> n" "1 \<le> T" "length mat = n * n"
  shows "init_config n mat T =
     Some \<lparr>best_tour = \<lparr>cities = replicate (n + 1) NO_CITY, count = 0, cost = INFINITY\<rparr>,
           threads_in_cond_wait = 0, new_stack = [], new_stack_size = 0,
           workers = map (seed_worker n mat T) [0..<T]\<rparr>"
proof -
  have "\<forall>r\<in>set [0..<T]. r < T" by simp
  from init_workers_eq[OF assms this] show ?thesis
    by (simp add: init_config_def Initialize_tour_eq)
qed

lemma seed_elt_ok:
  assumes "1 \<le> i" "i < n"
  shows "elt_ok n mat \<lparr>tour_p = \<lparr>cities = 0 # replicate n NO_CITY, count = 1, cost = 0\<rparr>,
                            city = int i, elt_cost = mat ! i\<rparr>"
  using assms by (simp add: elt_ok_def tour_ok_def visited_def)

lemma seed_worker_ok:
  assumes "1 \<le> n" "1 \<le> T" "r < T"
  shows "worker_ok n mat (seed_worker n mat T r)"
proof -
  have "elt_ok n mat \<lparr>tour_p = \<lparr>cities = 0 # replicate n NO_CITY, count = 1, cost = 0\<rparr>,
                            city = int i, elt_cost = mat ! i\<rparr>"
    if "i \<in> set (final_cities n T r)" for i
    using slice_bounds[OF assms that] by (intro seed_elt_ok) simp_all
  then show ?thesis
    by (simp add: worker_ok_def seed_worker_def pc_ok_def list_all_iff)
qed

lemma init_config_ok:
  assumes "1 \<le> n" "1 \<le> T" "length mat = n * n"
  shows "\<exists>c. init_config n mat T = Some c \<and> config_ok n mat T c"
proof -
  define ws where "ws = map (seed_worker n mat T) [0..<T]"
  have pc: "\<forall>w\<in>set ws. pc w = At_Terminated" by (auto simp: ws_def seed_worker_def)
  then have f1: "filter waiting ws = []" by (auto simp: filter_empty_conv waiting_def)
  have f2: "filter (\<lambda>w. pc w = Woken) ws = []" using pc by (auto simp: filter_empty_conv)
  have f3: "list_all (\<lambda>w. pc w \<noteq> Halted) ws" using pc by (auto simp: list_all_iff)
  have f4: "list_all (worker_ok n mat) ws"
    using assms(1,2) by (auto simp: ws_def list_all_iff seed_worker_ok)
  have "length ws = T" by (simp add: ws_def)
  then have "config_ok n mat T
     \<lparr>best_tour = \<lparr>cities = replicate (n + 1) NO_CITY, count = 0, cost = INFINITY\<rparr>,
           threads_in_cond_wait = 0, new_stack = [], new_stack_size = 0,
           workers = ws\<rparr>"
    using assms(2) f1 f2 f3 f4 by (simp add: config_ok_def coord_ok_def)
  then show ?thesis
    unfolding ws_def by (simp add: init_config_eq[OF assms])
qed

lemma run_ok:
  assumes "1 \<le> n" "1 \<le> T" "length mat = n * n"
  shows "\<exists>c. run n mat T sched = Some c \<and> config_ok n mat T c"
proof -
  from init_config_ok[OF assms] obtain c0 where
    c0: "init_config n mat T = Some c0" "config_ok n mat T c0" by blast
  from exec_ok[OF c0(2) assms(3), of sched] show ?thesis
    by (simp add: run_def c0(1))
qed

subsection \<open>Sums that fit\<close>








subsection \<open>No access leaves its array, and every tour on a stack is a path\<close>

lemma elt_ok_accesses:
  assumes "elt_ok n mat e"
  shows "wr (cities (tour_p e)) (int (count (tour_p e))) (city e) = Some (cities (extended e))"
    "count (extended e) \<le> n"
    "Dup_tour n (extended e) =
       Some \<lparr>cities = take n (cities (extended e)), count = count (extended e),
              cost = cost (extended e)\<rparr>"
    "length (take n (cities (extended e))) = n"
proof -
  note b = elt_ok_bounds[OF assms]
  show "wr (cities (tour_p e)) (int (count (tour_p e))) (city e) = Some (cities (extended e))"
    using b(1) by (simp add: extended_def)
  show "count (extended e) \<le> n" by (rule b(5))
  show "Dup_tour n (extended e) =
       Some \<lparr>cities = take n (cities (extended e)), count = count (extended e),
              cost = cost (extended e)\<rparr>"
    using b(6) by (rule Dup_tour_eq)
  show "length (take n (cities (extended e))) = n" using b(6) by simp
qed

text \<open>
  Claim C9. For \<open>n \<ge> 1\<close> cities, \<open>T \<ge> 1\<close> workers and a matrix of \<open>n * n\<close>
  cells, under every schedule every step of every worker succeeds: no read or write
  leaves its array (and no NULL pointer is followed). In every state the run reaches,
  each node on a stack or in \<open>new_stack\<close> holds a tour with \<open>count < n\<close> in an array
  of at least \<open>n\<close> cells, so the extension after \<open>Pop\<close> writes at an index of at most
  \<open>n - 1\<close>, inside the array, and \<open>Dup_tour\<close> of the extended tour copies the cells
  \<open>0, ..., n - 1\<close> into its array of \<open>n\<close> cells; a tour waiting for the write lock has
  \<open>count = n\<close> and its copy into the champion succeeds, the champion's array having
  \<open>n + 1\<close> cells.
\<close>

theorem search_stays_in_bounds:
  assumes "1 \<le> n" "1 \<le> T" "length mat = n * n"
  shows "\<exists>c. run n mat T sched = Some c
     \<and> (\<forall>e \<in> (\<Union>w\<in>set (workers c). set (stack_p w)) \<union> set (new_stack c).
           count (tour_p e) < n \<and> n \<le> length (cities (tour_p e))
           \<and> wr (cities (tour_p e)) (int (count (tour_p e))) (city e) = Some (cities (extended e))
           \<and> Dup_tour n (extended e) =
               Some \<lparr>cities = take n (cities (extended e)), count = count (extended e),
                      cost = cost (extended e)\<rparr>
           \<and> length (take n (cities (extended e))) = n)
     \<and> (\<forall>w\<in>set (workers c). \<forall>t cty. pc w = Upgrading t cty \<longrightarrow>
           count t = n \<and> n \<le> length (cities t)
           \<and> Check_best_tour_wr n mat cty t (best_tour c) \<noteq> None)
     \<and> length (cities (best_tour c)) = n + 1
     \<and> (\<forall>i j. worker_step n mat T i j c \<noteq> None)"
proof -
  from run_ok[OF assms] obtain c where
    c: "run n mat T sched = Some c" "config_ok n mat T c" by blast
  have w: "\<forall>w\<in>set (workers c). worker_ok n mat w"
    and ns: "\<forall>e\<in>set (new_stack c). elt_ok n mat e"
    and lb: "length (cities (best_tour c)) = n + 1"
    using c(2) by (simp_all add: config_ok_def list_all_iff)
  have e: "elt_ok n mat e" if "e \<in> (\<Union>w\<in>set (workers c). set (stack_p w)) \<union> set (new_stack c)" for e
    using that w ns by (auto simp: worker_ok_def list_all_iff)
  have a: "count (tour_p e) < n \<and> n \<le> length (cities (tour_p e))
           \<and> wr (cities (tour_p e)) (int (count (tour_p e))) (city e) = Some (cities (extended e))
           \<and> Dup_tour n (extended e) =
               Some \<lparr>cities = take n (cities (extended e)), count = count (extended e),
                      cost = cost (extended e)\<rparr>
           \<and> length (take n (cities (extended e))) = n"
    if "e \<in> (\<Union>w\<in>set (workers c). set (stack_p w)) \<union> set (new_stack c)" for e
    using elt_ok_accesses[OF e[OF that]] elt_ok_bounds(2)[OF e[OF that]] e[OF that]
    by (simp add: elt_ok_def)
  have u: "count t = n \<and> n \<le> length (cities t)
           \<and> Check_best_tour_wr n mat cty t (best_tour c) \<noteq> None"
    if "w \<in> set (workers c)" "pc w = Upgrading t cty" for w t cty
  proof -
    have t: "tour_ok n mat t" "count t = n" "cty = last (visited t)"
      using w that by (auto simp: worker_ok_def pc_ok_def)
    have "visited t \<noteq> []" using t(1) by (rule tour_ok_nonempty)
    then have "last (visited t) \<in> set (visited t)" by simp
    then have "0 \<le> cty \<and> cty < int n"
      using t(1,3) by (auto simp: tour_ok_def list_all_iff)
    then have "0 \<le> cty \<and> nat cty < n" by auto
    then have "submission_ok n (cty, t)"
      using t(1,2) by (simp add: submission_ok_def tour_ok_def)
    from Check_best_tour_wr_eq[OF this lb assms(3)] show ?thesis
      using t by (simp add: tour_ok_def)
  qed
  have s: "worker_step n mat T i j c \<noteq> None" for i j
    using step_ok[OF c(2) assms(3), of i j] by auto
  show ?thesis
  proof (intro exI[of _ c] conjI)
    show "run n mat T sched = Some c" by (rule c(1))
    show "\<forall>e \<in> (\<Union>w\<in>set (workers c). set (stack_p w)) \<union> set (new_stack c).
           count (tour_p e) < n \<and> n \<le> length (cities (tour_p e))
           \<and> wr (cities (tour_p e)) (int (count (tour_p e))) (city e) = Some (cities (extended e))
           \<and> Dup_tour n (extended e) =
               Some \<lparr>cities = take n (cities (extended e)), count = count (extended e),
                      cost = cost (extended e)\<rparr>
           \<and> length (take n (cities (extended e))) = n"
      by (intro ballI a)
    show "\<forall>w\<in>set (workers c). \<forall>t cty. pc w = Upgrading t cty \<longrightarrow>
           count t = n \<and> n \<le> length (cities t)
           \<and> Check_best_tour_wr n mat cty t (best_tour c) \<noteq> None"
    proof (intro ballI allI impI)
      fix w t cty assume "w \<in> set (workers c)" "pc w = Upgrading t cty"
      then show "count t = n \<and> n \<le> length (cities t)
           \<and> Check_best_tour_wr n mat cty t (best_tour c) \<noteq> None"
        by (rule u)
    qed
    show "length (cities (best_tour c)) = n + 1" by (rule lb)
    show "\<forall>i j. worker_step n mat T i j c \<noteq> None" by (intro allI s)
  qed
qed

theorem search_stays_in_bounds_witness:
  "(1::nat) \<le> 4 \<and> (1::nat) \<le> 2 \<and> length example_mat = 4 * 4
   \<and> (\<exists>c. run 4 example_mat 2 [(0, 0), (0, 0), (1, 0), (1, 0), (0, 0)] = Some c
        \<and> length (cities (best_tour c)) = 4 + 1
        \<and> (\<forall>i j. worker_step 4 example_mat 2 i j c \<noteq> None))"
proof -
  have h: "(1::nat) \<le> 4" "(1::nat) \<le> 2" "length example_mat = 4 * 4"
    by (simp_all add: example_mat_def)
  from search_stays_in_bounds[OF h, of "[(0, 0), (0, 0), (1, 0), (1, 0), (0, 0)]"]
  show ?thesis
  proof (elim exE conjE)
    fix c
    assume c: "run 4 example_mat 2 [(0, 0), (0, 0), (1, 0), (1, 0), (0, 0)] = Some c"
      "length (cities (best_tour c)) = 4 + 1"
      "\<forall>i j. worker_step 4 example_mat 2 i j c \<noteq> None"
    show ?thesis by (intro conjI exI[of _ c] h c)
  qed
qed




subsection \<open>Costs of paths and cycles\<close>






subsection \<open>Cycles covered by nodes\<close>






subsection \<open>The invariant of the search is kept by every step\<close>


lemma holds_wake [simp]: "holds (wake w) p = holds w p"
  by (auto simp: holds_def wake_def)

lemma l_best_wake [simp]: "l_best_tour (wake w) = l_best_tour w"
  by (simp add: wake_def)

















subsection \<open>The search from its start to its end\<close>







subsection \<open>Every step of a running worker lowers the bound on the steps left\<close>











subsection \<open>Every fair schedule ends with all workers returned\<close>








subsection \<open>A single worker never donates\<close>





subsection \<open>The reported cost\<close>







subsection \<open>A donation can be left behind\<close>

text \<open>
  Claim C2.  A worker that has been signalled is counted in \<open>threads_in_cond_wait\<close> until it
  runs again.  With four cities, two workers and the matrix \<open>race_mat\<close>, worker 1 parks,
  worker 0 donates the seed for city 2 and signals, and then finishes its own half before
  worker 1 runs.  In that state \<open>Terminated\<close> returns TRUE for worker 0 while the staging slot
  still holds the donation; worker 1 then halts as well, the donation is never searched, and
  the champion has cost 8.
\<close>

theorem Terminated_true_with_donation_pending:
  "\<exists>c c'. run 4 race_mat 2 (replicate 12 (1, 1) @ replicate 9 (0, 1)) = Some c
     \<and> map pc (workers c) = [At_Terminated, Woken]
     \<and> new_stack c =
         [\<lparr>tour_p = \<lparr>cities = [0, NO_CITY, NO_CITY, NO_CITY, NO_CITY], count = 1, cost = 0\<rparr>,
            city = 2, elt_cost = 1\<rparr>]
     \<and> Terminated 2 (workers c ! 0) c =
         Some (Returned True, Cond_broadcast, workers c ! 0, c\<lparr>threads_in_cond_wait := 2\<rparr>)
     \<and> run 4 race_mat 2 (replicate 12 (1, 1) @ replicate 9 (0, 1) @ [(0, 1), (1, 1)]) = Some c'
     \<and> all_halted c'
     \<and> new_stack c' = new_stack c
     \<and> cost (best_tour c') = 8"
proof -
  define e where "e = \<lparr>tour_p = \<lparr>cities = [0, NO_CITY, NO_CITY, NO_CITY, NO_CITY], count = 1, cost = 0\<rparr>,
            city = 2, elt_cost = 1\<rparr>"
  define c where "c = \<lparr>best_tour = \<lparr>cities = [0, 1, 2, 3, 0], count = 5, cost = 8\<rparr>,
     threads_in_cond_wait = 1, new_stack = [e], new_stack_size = 1,
     workers = [\<lparr>stack_p = [], my_count = 0, l_best_tour = 11, pc = At_Terminated\<rparr>,
                \<lparr>stack_p = [], my_count = 0, l_best_tour = 11, pc = Woken\<rparr>]\<rparr>"
  define c' where "c' = \<lparr>best_tour = \<lparr>cities = [0, 1, 2, 3, 0], count = 5, cost = 8\<rparr>,
     threads_in_cond_wait = 2, new_stack = [e], new_stack_size = 1,
     workers = [\<lparr>stack_p = [], my_count = 0, l_best_tour = 11, pc = Halted\<rparr>,
                \<lparr>stack_p = [], my_count = 0, l_best_tour = 11, pc = Halted\<rparr>]\<rparr>"
  have 1: "run 4 race_mat 2 (replicate 12 (1, 1) @ replicate 9 (0, 1)) = Some c"
    unfolding c_def e_def by code_simp
  have 2: "run 4 race_mat 2 (replicate 12 (1, 1) @ replicate 9 (0, 1) @ [(0, 1), (1, 1)]) = Some c'"
    unfolding c'_def e_def by code_simp
  have 3: "Terminated 2 (workers c ! 0) c =
         Some (Returned True, Cond_broadcast, workers c ! 0, c\<lparr>threads_in_cond_wait := 2\<rparr>)"
    by (simp add: Terminated_def c_def Empty_def)
  have 7: "map pc (workers c) = [At_Terminated, Woken]" "new_stack c = [e]"
    "all_halted c'" "new_stack c' = new_stack c" "cost (best_tour c') = 8"
    by (simp_all add: c_def c'_def all_halted_def)
  show ?thesis
    using 1 2 3 7 unfolding e_def by (intro exI[of _ c] exI[of _ c']) simp
qed

text \<open>The tour through the lost seed is cheaper than the reported one.\<close>

lemma race_mat_cheaper_cycle:
  "valid_matrix 4 race_mat \<and> ham 4 [0, 2, 3, 1] \<and> cycle_cost 4 race_mat [0, 2, 3, 1] = 7"
proof -
  have 4: "valid_matrix 4 race_mat" by code_simp
  have 5: "ham 4 [0, 2, 3, 1]" by (simp add: ham_def)
  have 6: "cycle_cost 4 race_mat [0, 2, 3, 1] = 7" by (simp add: cycle_cost_def race_mat_def)
  show ?thesis using 4 5 6 by simp
qed

text \<open>The branch of \<open>Terminated\<close> that donates: it splits, publishes, signals and returns
  FALSE, and neither blocks nor changes \<open>threads_in_cond_wait\<close>.\<close>

lemma Terminated_donates:
  assumes "2 \<le> my_count loc" "0 < threads_in_cond_wait g" "new_stack g = []"
    "my_count loc = length (stack_p loc)"
  shows "Terminated thread_count loc g =
     Some (Returned False, Cond_signal,
           loc\<lparr>stack_p := odd_positions (stack_p loc),
               my_count := length (odd_positions (stack_p loc))\<rparr>,
           g\<lparr>new_stack := even_positions (stack_p loc),
             new_stack_size := length (even_positions (stack_p loc))\<rparr>)"
  using assms by (simp add: Terminated_def Split_stack_eq)

subsection \<open>The command line\<close>

lemma strtol_examples:
  "strtol ''1'' = 1" "strtol ''0'' = 0" "strtol ''abc'' = 0" "strtol ''-3'' = - 3"
  "strtol ''1x'' = 1"
  by (simp_all add: strtol_def isspace_def digit_of_def LONG_MAX_def)

lemma Read_mat_example: "Read_mat (4 # example_mat) = Some (4, example_mat)"
  by (simp add: Read_mat_def example_mat_def)

lemma run_example_single:
  "run 4 example_mat 1 (replicate 38 (0, 0)) =
     Some \<lparr>best_tour = \<lparr>cities = [0, 1, 2, 3, 0], count = 5, cost = 7\<rparr>,
           threads_in_cond_wait = 1, new_stack = [], new_stack_size = 0,
           workers = [\<lparr>stack_p = [], my_count = 0, l_best_tour = 7, pc = Halted\<rparr>]\<rparr>"
  by code_simp

lemma run_example_none:
  "run 4 example_mat 0 [] =
     Some \<lparr>best_tour = \<lparr>cities = [NO_CITY, NO_CITY, NO_CITY, NO_CITY, NO_CITY], count = 0,
                         cost = INFINITY\<rparr>,
           threads_in_cond_wait = 0, new_stack = [], new_stack_size = 0, workers = []\<rparr>"
  by code_simp

lemma run_example_single_Suc:
  "run 4 example_mat (Suc 0) (replicate 38 (0, 0)) =
     Some \<lparr>best_tour = \<lparr>cities = [0, 1, 2, 3, 0], count = 5, cost = 7\<rparr>,
           threads_in_cond_wait = 1, new_stack = [], new_stack_size = 0,
           workers = [\<lparr>stack_p = [], my_count = 0, l_best_tour = 7, pc = Halted\<rparr>]\<rparr>"
  using run_example_single by simp

lemma main_example_single:
  assumes "wrap_int (strtol a) = 1"
  shows "main example_files (replicate 38 (0, 0)) [''tsp'', a, ''mat.txt''] =
     Some \<lparr>status = 0, err = [],
           out = ''Best tour:'' @ [CHR 0x0A] @ ''0 1 2 3 0 '' @ [CHR 0x0A, CHR 0x0A]
                 @ ''Cost = 7'' @ [CHR 0x0A],
           created = 1\<rparr>"
  using assms
  by (simp add: main_def example_files_def Read_mat_example
      run_example_single_Suc all_halted_def Print_tour_def dec_def)

lemma main_example_none:
  assumes "wrap_int (strtol a) \<le> 0"
  shows "main example_files [] [''tsp'', a, ''mat.txt''] =
     Some \<lparr>status = 0, err = [],
           out = ''Best tour:'' @ [CHR 0x0A, CHR 0x0A, CHR 0x0A] @ ''Cost = 1000000'' @ [CHR 0x0A],
           created = 0\<rparr>"
  using assms
  by (simp add: main_def example_files_def Read_mat_example run_example_none all_halted_def
      Print_tour_def dec_def INFINITY_def)

text \<open>
  Claim C10.  When the number of arguments is wrong, or the matrix file cannot be opened,
  \<open>main\<close> writes the usage line to \<open>stderr\<close> and exits with status 0 before any worker is
  created and before anything is written to \<open>stdout\<close>.  The argument \<open>thread_count\<close> is not
  checked: with three arguments and a file that opens nothing is written to \<open>stderr\<close>, and
  the number of workers created is whatever \<open>strtol\<close> makes of the argument.
\<close>

theorem main_usage_on_malformed_invocation:
  assumes "argv \<noteq> []"
  shows "(length argv \<noteq> 3 \<longrightarrow> main fopen sched argv = Some (Usage [] (argv ! 0)))
       \<and> (length argv = 3 \<and> fopen (argv ! 2) = None \<longrightarrow>
            main fopen sched argv =
              Some (Usage (''Can't open '' @ argv ! 2 @ [CHR 0x0A]) (argv ! 0)))
       \<and> status (Usage e p) = 0 \<and> out (Usage e p) = [] \<and> created (Usage e p) = 0
       \<and> err (Usage e p) = e @ ''usage: '' @ p @ '' <number of threads> <matrix file>'' @ [CHR 0x0A]
       \<and> (\<forall>r. length argv = 3 \<and> fopen (argv ! 2) \<noteq> None \<and> main fopen sched argv = Some r \<longrightarrow>
            status r = 0 \<and> err r = []
            \<and> created r = nat (wrap_int (strtol (argv ! 1))))"
proof -
  have a: "main fopen sched argv = Some (Usage [] (argv ! 0))" if "length argv \<noteq> 3"
    using that assms by (simp add: main_def rd_def)
  have b: "main fopen sched argv = Some (Usage (''Can't open '' @ argv ! 2 @ [CHR 0x0A]) (argv ! 0))"
    if "length argv = 3" "fopen (argv ! 2) = None"
    using that by (simp add: main_def)
  have c: "status (Usage e p) = 0 \<and> out (Usage e p) = [] \<and> created (Usage e p) = 0
       \<and> err (Usage e p) = e @ ''usage: '' @ p @ '' <number of threads> <matrix file>'' @ [CHR 0x0A]"
    by (simp add: Usage_def)
  have d: "status r = 0 \<and> err r = [] \<and> created r = nat (wrap_int (strtol (argv ! 1)))"
    if "length argv = 3" "fopen (argv ! 2) \<noteq> None" "main fopen sched argv = Some r" for r
    using that
    by (auto simp add: main_def Let_def split: option.splits if_splits bind_splits prod.splits)
  show ?thesis using a b c d by blast
qed

theorem main_usage_on_malformed_invocation_witness:
  "[''tsp''] \<noteq> [] \<and> length [''tsp''] \<noteq> 3
   \<and> main example_files [] [''tsp''] =
       Some \<lparr>status = 0, err = ''usage: tsp <number of threads> <matrix file>'' @ [CHR 0x0A],
             out = [], created = 0\<rparr>
   \<and> length [''tsp'', ''1'', ''none.txt''] = 3 \<and> example_files ''none.txt'' = None
   \<and> main example_files [] [''tsp'', ''1'', ''none.txt''] =
       Some \<lparr>status = 0,
             err = ''Can't open none.txt'' @ [CHR 0x0A]
                   @ ''usage: tsp <number of threads> <matrix file>'' @ [CHR 0x0A],
             out = [], created = 0\<rparr>
   \<and> example_files ''mat.txt'' \<noteq> None
   \<and> main example_files (replicate 38 (0, 0)) [''tsp'', ''1'', ''mat.txt''] =
       Some \<lparr>status = 0, err = [],
             out = ''Best tour:'' @ [CHR 0x0A] @ ''0 1 2 3 0 '' @ [CHR 0x0A, CHR 0x0A]
                   @ ''Cost = 7'' @ [CHR 0x0A],
             created = 1\<rparr>
   \<and> nat (wrap_int (strtol ''1'')) = 1"
proof -
  have ne: "[''tsp''] \<noteq> []" "[''tsp'', ''1'', ''none.txt''] \<noteq> []" by simp_all
  have f: "example_files ''none.txt'' = None" "example_files ''mat.txt'' \<noteq> None"
    by (simp_all add: example_files_def)
  note t1 = main_usage_on_malformed_invocation[where fopen=example_files and sched="[]"
      and e="[]" and p="''tsp''", OF ne(1)]
  note t2 = main_usage_on_malformed_invocation[where fopen=example_files and sched="[]"
      and e="''Can't open none.txt'' @ [CHR 0x0A]" and p="''tsp''", OF ne(2)]
  have 1: "main example_files [] [''tsp''] = Some (Usage [] ''tsp'')"
    using t1 by simp
  have 2: "main example_files [] [''tsp'', ''1'', ''none.txt''] =
      Some (Usage (''Can't open none.txt'' @ [CHR 0x0A]) ''tsp'')"
    using t2 f(1) by simp
  have 3: "main example_files (replicate 38 (0, 0)) [''tsp'', ''1'', ''mat.txt''] =
       Some \<lparr>status = 0, err = [],
             out = ''Best tour:'' @ [CHR 0x0A] @ ''0 1 2 3 0 '' @ [CHR 0x0A, CHR 0x0A]
                   @ ''Cost = 7'' @ [CHR 0x0A],
             created = 1\<rparr>"
    by (rule main_example_single) (simp add: strtol_examples wrap_int_def)
  have 4: "nat (wrap_int (strtol ''1'')) = 1" by (simp add: strtol_examples wrap_int_def)
  show ?thesis using 1 2 3 4 f by (simp add: Usage_def)
qed

text \<open>
  With three arguments and a matrix file that opens, a \<open>thread_count\<close> argument that is zero,
  not a number, or negative gives no usage line: no worker is created, and \<open>main\<close> prints the
  empty initial champion with cost 1000000 and returns 0.  An argument with trailing
  characters is read up to them, and the search runs.
\<close>

theorem main_thread_count_unchecked:
  "main example_files [] [''tsp'', ''0'', ''mat.txt''] =
     Some \<lparr>status = 0, err = [],
           out = ''Best tour:'' @ [CHR 0x0A, CHR 0x0A, CHR 0x0A] @ ''Cost = 1000000'' @ [CHR 0x0A],
           created = 0\<rparr>
   \<and> main example_files [] [''tsp'', ''abc'', ''mat.txt''] =
     Some \<lparr>status = 0, err = [],
           out = ''Best tour:'' @ [CHR 0x0A, CHR 0x0A, CHR 0x0A] @ ''Cost = 1000000'' @ [CHR 0x0A],
           created = 0\<rparr>
   \<and> main example_files [] [''tsp'', ''-3'', ''mat.txt''] =
     Some \<lparr>status = 0, err = [],
           out = ''Best tour:'' @ [CHR 0x0A, CHR 0x0A, CHR 0x0A] @ ''Cost = 1000000'' @ [CHR 0x0A],
           created = 0\<rparr>
   \<and> main example_files (replicate 38 (0, 0)) [''tsp'', ''1x'', ''mat.txt''] =
     Some \<lparr>status = 0, err = [],
           out = ''Best tour:'' @ [CHR 0x0A] @ ''0 1 2 3 0 '' @ [CHR 0x0A, CHR 0x0A]
                 @ ''Cost = 7'' @ [CHR 0x0A],
           created = 1\<rparr>"
proof -
  have a: "wrap_int (strtol ''0'') \<le> 0" "wrap_int (strtol ''abc'') \<le> 0"
    "wrap_int (strtol ''-3'') \<le> 0" "wrap_int (strtol ''1x'') = 1"
    by (simp_all add: strtol_examples wrap_int_def)
  show ?thesis
    using main_example_none[OF a(1)] main_example_none[OF a(2)] main_example_none[OF a(3)]
      main_example_single[OF a(4)]
    by (intro conjI)
qed

end
